theory Spec2Isabelle
  imports Main "HOL-Library.Word" "HOL-Library.Sublist"
begin

section \<open>JavaScript strings\<close>

text \<open>
  A JavaScript string is a sequence of 16-bit code units. The scripts read and write
  their files as text, so a file's content is modelled as the string that
  \<^verbatim>\<open>fs.readFileSync(path, 'utf8')\<close> returns for it. ASCII literals of the
  source are written with \<open>js\<close>.
\<close>

type_synonym jschar = "16 word"
type_synonym jsstring = "jschar list"

definition js :: "string \<Rightarrow> jsstring" where
  "js cs = map of_char cs"

text \<open>\<^verbatim>\<open>\s\<close> of a regular expression, which is also what \<^verbatim>\<open>trim()\<close> strips:
  the WhiteSpace and LineTerminator code points of ECMAScript.\<close>

definition white_space :: "jschar \<Rightarrow> bool" where
  "white_space c \<longleftrightarrow>
     c \<in> {0x0009, 0x000A, 0x000B, 0x000C, 0x000D, 0x0020, 0x00A0, 0x1680,
          0x2000, 0x2001, 0x2002, 0x2003, 0x2004, 0x2005, 0x2006, 0x2007,
          0x2008, 0x2009, 0x200A, 0x2028, 0x2029, 0x202F, 0x205F, 0x3000, 0xFEFF}"

definition trim :: "jsstring \<Rightarrow> jsstring" where
  "trim s = dropWhile white_space (rev (dropWhile white_space (rev s)))"

definition endsWith :: "jsstring \<Rightarrow> jsstring \<Rightarrow> bool" where
  "endsWith s t = prefix (rev t) (rev s)"

text \<open>\<^verbatim>\<open>indexOf\<close> and \<^verbatim>\<open>lastIndexOf\<close>: the result \<open>-1\<close> is \<open>None\<close>.\<close>

fun indexOf :: "jsstring \<Rightarrow> jsstring \<Rightarrow> nat option" where
  "indexOf [] t = (if t = [] then Some 0 else None)"
| "indexOf (c # cs) t =
     (if prefix t (c # cs) then Some 0 else map_option Suc (indexOf cs t))"

fun lastIndexOf :: "jsstring \<Rightarrow> jsstring \<Rightarrow> nat option" where
  "lastIndexOf [] t = (if t = [] then Some 0 else None)"
| "lastIndexOf (c # cs) t =
     (case lastIndexOf cs t of
        Some i \<Rightarrow> Some (Suc i)
      | None \<Rightarrow> if prefix t (c # cs) then Some 0 else None)"

definition includes_str :: "jsstring \<Rightarrow> jsstring \<Rightarrow> bool" where
  "includes_str s t = (indexOf s t \<noteq> None)"

section \<open>Regular expressions\<close>

text \<open>
  The five regular expressions of the two scripts are sequences of literals, starred
  character classes (greedy \<^verbatim>\<open>*\<close> or lazy \<^verbatim>\<open>*?\<close>) and, in one of them, the
  end anchor. A backtracking matcher lists, for a pattern and the text at the current
  position, the remainders of the text after every way to match, in the order in which
  the engine tries them; the engine takes the first.
\<close>

datatype pattern_term =
    Literal jsstring
  | Star_greedy "jschar \<Rightarrow> bool"
  | Star_lazy "jschar \<Rightarrow> bool"
  | End_of_input

type_synonym regex = "pattern_term list"

fun star_greedy :: "(jschar \<Rightarrow> bool) \<Rightarrow> jsstring \<Rightarrow> jsstring list" where
  "star_greedy p [] = [[]]"
| "star_greedy p (c # cs) = (if p c then star_greedy p cs else []) @ [c # cs]"

fun star_lazy :: "(jschar \<Rightarrow> bool) \<Rightarrow> jsstring \<Rightarrow> jsstring list" where
  "star_lazy p [] = [[]]"
| "star_lazy p (c # cs) = (c # cs) # (if p c then star_lazy p cs else [])"

fun term_matches :: "pattern_term \<Rightarrow> jsstring \<Rightarrow> jsstring list" where
  "term_matches (Literal l) s = (if prefix l s then [drop (length l) s] else [])"
| "term_matches (Star_greedy p) s = star_greedy p s"
| "term_matches (Star_lazy p) s = star_lazy p s"
| "term_matches End_of_input s = (if s = [] then [[]] else [])"

fun matches :: "regex \<Rightarrow> jsstring \<Rightarrow> jsstring list" where
  "matches [] s = [s]"
| "matches (t # ts) s = concat (map (matches ts) (term_matches t s))"

text \<open>The length of the match at the start of the text, if there is one.\<close>

definition match_at :: "regex \<Rightarrow> jsstring \<Rightarrow> nat option" where
  "match_at r s =
     (case matches r s of [] \<Rightarrow> None | rest # _ \<Rightarrow> Some (length s - length rest))"

text \<open>\<^verbatim>\<open>exec\<close> of a regular expression without flags: the leftmost position with a
  match, and the length of that match.\<close>

fun regex_exec :: "(jsstring \<Rightarrow> nat option) \<Rightarrow> jsstring \<Rightarrow> (nat \<times> nat) option" where
  "regex_exec m [] = map_option (Pair 0) (m [])"
| "regex_exec m (c # cs) =
     (case m (c # cs) of
        Some n \<Rightarrow> Some (0, n)
      | None \<Rightarrow> map_option (\<lambda>(i, n). (Suc i, n)) (regex_exec m cs))"

definition regex_test :: "regex \<Rightarrow> jsstring \<Rightarrow> bool" where
  "regex_test r s = (regex_exec (match_at r) s \<noteq> None)"

text \<open>
  \<^verbatim>\<open>GetSubstitution\<close> of ECMAScript for a pattern without capture groups: in the
  replacement text \<^verbatim>\<open>$$\<close> stands for a dollar sign, \<^verbatim>\<open>$&\<close> for the matched text,
  \<^verbatim>\<open>$`\<close> for the text before the match and \<^verbatim>\<open>$'\<close> for the text after it. A dollar
  sign before anything else (a digit included, as there is no group to refer to) stands
  for itself.
\<close>

fun getSubstitution :: "jsstring \<Rightarrow> jsstring \<Rightarrow> jsstring \<Rightarrow> jsstring \<Rightarrow> jsstring" where
  "getSubstitution matched preceding following [] = []"
| "getSubstitution matched preceding following [c] = [c]"
| "getSubstitution matched preceding following (c # d # r) =
     (if c = 0x24 then
        (if d = 0x24 then 0x24 # getSubstitution matched preceding following r
         else if d = 0x26 then matched @ getSubstitution matched preceding following r
         else if d = 0x60 then preceding @ getSubstitution matched preceding following r
         else if d = 0x27 then following @ getSubstitution matched preceding following r
         else c # getSubstitution matched preceding following (d # r))
      else c # getSubstitution matched preceding following (d # r))"

text \<open>\<^verbatim>\<open>str.replace(regex, replacement)\<close> for a regular expression without the
  \<^verbatim>\<open>g\<close> flag: only the first match is replaced.\<close>

definition replace_regex :: "regex \<Rightarrow> jsstring \<Rightarrow> jsstring \<Rightarrow> jsstring" where
  "replace_regex r s replacement =
     (case regex_exec (match_at r) s of
        None \<Rightarrow> s
      | Some (i, n) \<Rightarrow>
          take i s
          @ getSubstitution (take n (drop i s)) (take i s) (drop (i + n) s) replacement
          @ drop (i + n) s)"

text \<open>\<^verbatim>\<open>str.replace(pattern, replacement)\<close> for a string pattern: the first
  occurrence is replaced, and the replacement text is expanded in the same way.\<close>

definition replace_string :: "jsstring \<Rightarrow> jsstring \<Rightarrow> jsstring \<Rightarrow> jsstring" where
  "replace_string s pat replacement =
     (case indexOf s pat of
        None \<Rightarrow> s
      | Some i \<Rightarrow>
          take i s
          @ getSubstitution pat (take i s) (drop (i + length pat) s) replacement
          @ drop (i + length pat) s)"

text \<open>
  \<^verbatim>\<open>str.replace(regex, '')\<close> for a regular expression with the \<^verbatim>\<open>g\<close> flag: the
  text is scanned from the left, every match is dropped and the scan goes on behind
  it. An empty match drops nothing, and the scan moves one code unit ahead.
\<close>

function remove_all :: "(jsstring \<Rightarrow> nat option) \<Rightarrow> jsstring \<Rightarrow> jsstring" where
  "remove_all m [] = []"
| "remove_all m (c # cs) =
     (case m (c # cs) of
        None \<Rightarrow> c # remove_all m cs
      | Some n \<Rightarrow> if n = 0 then c # remove_all m cs else remove_all m (drop n (c # cs)))"
  by pat_completeness auto
termination
  by (relation "measure (\<lambda>(m, s). length s)") auto

section \<open>The DOCX script: image handler\<close>

text \<open>
  The function given to \<^verbatim>\<open>mammoth.images.imgElement\<close>. It reads the image as
  base64 (which may fail) and returns the attributes of the element to emit, a
  JavaScript object, here an association list. What it has read is not used.
\<close>

datatype js_error = Fs_read_error | Fs_write_error | Converter_error

record image =
  read_base64 :: "js_error + string"

definition placeholder_src :: string where
  "placeholder_src =
     ''data:image/gif;base64,R0lGODlhAQABAIAAAAAAAP///yH5BAEAAAAALAAAAAABAAEAAAIBRAA7''"

definition convertImage :: "image \<Rightarrow> js_error + (string \<times> string) list" where
  "convertImage img =
     (case read_base64 img of
        Inl err \<Rightarrow> Inl err
      | Inr imageBuffer \<Rightarrow> Inr [(''src'', placeholder_src), (''class'', ''remove-me'')])"

text \<open>
  What the placeholder is, read from its data URL: the payload is base64 (without
  padding here), and in a GIF the bytes 6 to 9 give the width and the height of the
  logical screen, byte 10 says whether a global colour table follows the header, and a
  graphic control extension (\<open>21 F9 04\<close>) carries the transparency flag in the lowest
  bit of its fourth byte.
\<close>

definition base64_digit :: "char \<Rightarrow> nat option" where
  "base64_digit c =
     (let n = (of_char c :: nat) in
      if 65 \<le> n \<and> n \<le> 90 then Some (n - 65)
      else if 97 \<le> n \<and> n \<le> 122 then Some (n - 71)
      else if 48 \<le> n \<and> n \<le> 57 then Some (n + 4)
      else if n = 43 then Some 62
      else if n = 47 then Some 63
      else None)"

fun base64_decode :: "string \<Rightarrow> nat list option" where
  "base64_decode (a # b # c # d # rest) =
     (case (base64_digit a, base64_digit b, base64_digit c, base64_digit d, base64_decode rest) of
        (Some x, Some y, Some z, Some w, Some bytes) \<Rightarrow>
          (let n = ((x * 64 + y) * 64 + z) * 64 + w
           in Some (n div 65536 # (n div 256) mod 256 # n mod 256 # bytes))
      | _ \<Rightarrow> None)"
| "base64_decode [] = Some []"
| "base64_decode _ = None"

definition data_url_payload :: "string \<Rightarrow> string option" where
  "data_url_payload url =
     (if prefix ''data:image/gif;base64,'' url
      then Some (drop (length ''data:image/gif;base64,'') url) else None)"

definition gif_size :: "nat list \<Rightarrow> (nat \<times> nat) option" where
  "gif_size bytes =
     (if 13 \<le> length bytes \<and> take 6 bytes = map of_char ''GIF89a''
      then Some (bytes ! 6 + 256 * bytes ! 7, bytes ! 8 + 256 * bytes ! 9)
      else None)"

definition gif_transparency :: "nat list \<Rightarrow> bool" where
  "gif_transparency bytes =
     (let flags = (if 13 \<le> length bytes then bytes ! 10 else 0);
          table = (if 128 \<le> flags then 3 * 2 ^ (flags mod 8 + 1) else 0)
      in case drop (13 + table) bytes of
           a # b # c # packed # _ \<Rightarrow> a = 0x21 \<and> b = 0xF9 \<and> c = 4 \<and> odd packed
         | _ \<Rightarrow> False)"

section \<open>The DOCX script: normalising the converted HTML\<close>

definition any_char :: "jschar \<Rightarrow> bool" where
  "any_char c \<longleftrightarrow> white_space c \<or> \<not> white_space c"

definition not_gt :: "jschar \<Rightarrow> bool" where
  "not_gt c \<longleftrightarrow> c \<noteq> 0x3E"

definition sentinelImgRegex :: regex where
  \<open>sentinelImgRegex =
     [Literal (js ''<img''), Star_greedy not_gt, Literal (js ''class="remove-me"''),
      Star_greedy not_gt, Literal (js ''>'')]\<close>

definition imgRegex :: regex where
  "imgRegex = [Literal (js ''<img''), Star_greedy not_gt, Literal (js ''>'')]"

definition olTailRegex :: regex where
  "olTailRegex =
     [Literal (js ''<ol>''), Star_lazy any_char, Literal (js ''</ol>''),
      Star_greedy white_space, End_of_input]"

definition bannerHtml :: jsstring where
  \<open>bannerHtml = js ''<img src="banner.png" alt="Banner" style="width: 100%; height: auto; display: block; margin: 0 auto 30px;">\<newline>''\<close>

definition upArrow :: jsstring where
  "upArrow = [0x2191]"

definition citationsOpen :: jsstring where
  \<open>citationsOpen = js ''<div class="citations">\<newline><h2>References</h2>\<newline>''\<close>

definition citationsClose :: jsstring where
  "citationsClose = js ''\<newline></div>''"

definition removeSentinelImages :: "jsstring \<Rightarrow> jsstring" where
  "removeSentinelImages htmlContent = remove_all (match_at sentinelImgRegex) htmlContent"

definition removeAllImages :: "jsstring \<Rightarrow> jsstring" where
  "removeAllImages htmlContent = remove_all (match_at imgRegex) htmlContent"

definition prependBanner :: "jsstring \<Rightarrow> jsstring" where
  "prependBanner htmlContent = bannerHtml @ htmlContent"

definition has_footnote_marker :: "jsstring \<Rightarrow> bool" where
  "has_footnote_marker footnotesContent \<longleftrightarrow>
     includes_str footnotesContent (js ''footnote-'') \<or> includes_str footnotesContent upArrow"

definition fixFootnotes :: "jsstring \<Rightarrow> jsstring" where
  "fixFootnotes htmlContent =
     (if endsWith (trim htmlContent) (js ''</ol>'') then
        (case lastIndexOf htmlContent (js ''<ol>'') of
           None \<Rightarrow> htmlContent
         | Some lastOlIndex \<Rightarrow>
             (let footnotesContent = drop lastOlIndex htmlContent in
              if has_footnote_marker footnotesContent then
                take lastOlIndex htmlContent @ citationsOpen @ footnotesContent @ citationsClose
              else htmlContent))
      else
        (case regex_exec (match_at olTailRegex) htmlContent of
           None \<Rightarrow> htmlContent
         | Some (i, n) \<Rightarrow>
             (let footnotesContent = take n (drop i htmlContent) in
              if has_footnote_marker footnotesContent then
                replace_string htmlContent footnotesContent
                  (citationsOpen @ footnotesContent @ citationsClose)
              else htmlContent)))"

definition normalize :: "jsstring \<Rightarrow> jsstring" where
  "normalize htmlContent =
     fixFootnotes (prependBanner (removeAllImages (removeSentinelImages htmlContent)))"

section \<open>Injecting into the template\<close>

definition articleRegex :: regex where
  "articleRegex = [Literal (js ''<article>''), Star_lazy any_char, Literal (js ''</article>'')]"

definition citationsRegex :: regex where
  \<open>citationsRegex =
     [Literal (js ''<div class="citations">''), Star_lazy any_char, Literal (js ''</div>'')]\<close>

definition newArticle :: "jsstring \<Rightarrow> jsstring" where
  "newArticle htmlContent = js ''<article>\<newline>'' @ htmlContent @ js ''\<newline></article>''"

section \<open>The two scripts\<close>

text \<open>
  A run of a script is modelled by what it does to the outside, in order, and by the
  exit code of the process. The environment says what the files hold: \<open>None\<close> is a
  file that is not there (for \<open>index_html\<close>, one that cannot be read), and
  \<open>index_writable\<close> says whether \<^verbatim>\<open>fs.writeFileSync\<close> succeeds. The converters
  (\<^verbatim>\<open>marked.parse\<close>, \<^verbatim>\<open>mammoth.convertToHtml\<close> with its options) are libraries:
  they are parameters, and may throw.
\<close>

record 'd environment =
  sourcePath :: string
  source_file :: "'d option"
  index_html :: "jsstring option"
  index_writable :: bool

datatype event =
    Console_log string
  | Console_log_warnings "string list"
  | Console_error string
  | Console_error_with string js_error
  | Convert_call
  | Write_index jsstring

datatype completion = Returned | Thrown js_error | Exited nat

record outcome =
  trace :: "event list"
  exit_code :: nat

text \<open>The texts handed to \<^verbatim>\<open>fs.writeFileSync\<close> in a run, in order: none when the
  call is never reached.\<close>

definition written :: "outcome \<Rightarrow> jsstring list" where
  "written out = concat (map (\<lambda>e. case e of Write_index s \<Rightarrow> [s] | _ \<Rightarrow> []) (trace out))"

definition article_not_found :: string where
  "article_not_found = ''Could not find <article> tag in index.html''"

text \<open>The body of the \<^verbatim>\<open>try\<close> block of \<^verbatim>\<open>build-manifesto.js\<close>.\<close>

definition markdown_try ::
  "(jsstring \<Rightarrow> js_error + jsstring) \<Rightarrow> jsstring environment \<Rightarrow> event list \<times> completion" where
  "markdown_try marked_parse env =
     (case source_file env of
        None \<Rightarrow> ([], Thrown Fs_read_error)
      | Some markdown \<Rightarrow>
          (case marked_parse markdown of
             Inl err \<Rightarrow> ([Convert_call], Thrown err)
           | Inr htmlContent \<Rightarrow>
               (case index_html env of
                  None \<Rightarrow> ([Convert_call], Thrown Fs_read_error)
                | Some indexHtml \<Rightarrow>
                    if regex_test articleRegex indexHtml then
                      (let indexHtml' = replace_regex articleRegex indexHtml (newArticle htmlContent) in
                       if index_writable env then
                         ([Convert_call, Write_index indexHtml',
                           Console_log ''Successfully updated manifesto/index.html with content from source.md''],
                          Returned)
                       else ([Convert_call, Write_index indexHtml'], Thrown Fs_write_error))
                    else ([Convert_call, Console_error article_not_found], Exited 1))))"

definition build_manifesto ::
  "(jsstring \<Rightarrow> js_error + jsstring) \<Rightarrow> jsstring environment \<Rightarrow> outcome" where
  "build_manifesto marked_parse env =
     (case markdown_try marked_parse env of
        (tr, Returned) \<Rightarrow> \<lparr>trace = tr, exit_code = 0\<rparr>
      | (tr, Thrown err) \<Rightarrow>
          \<lparr>trace = tr @ [Console_error_with ''Error processing markdown:'' err], exit_code = 0\<rparr>
      | (tr, Exited n) \<Rightarrow> \<lparr>trace = tr, exit_code = n\<rparr>)"

text \<open>The callback given to \<^verbatim>\<open>then\<close> in the DOCX script.\<close>

definition docx_then ::
  "jsstring \<times> string list \<Rightarrow> 'd environment \<Rightarrow> event list \<times> completion" where
  "docx_then result env =
     (let htmlContent = normalize (fst result);
          messages = snd result;
          warnings = (if length messages > 0 then [Console_log_warnings messages] else [])
      in case index_html env of
           None \<Rightarrow> (warnings, Thrown Fs_read_error)
         | Some indexHtml \<Rightarrow>
             if regex_test articleRegex indexHtml then
               (let indexHtml1 = replace_regex articleRegex indexHtml (newArticle htmlContent);
                    indexHtml2 = replace_regex citationsRegex indexHtml1 []
                in if index_writable env then
                     (warnings @ [Write_index indexHtml2,
                        Console_log ''Successfully updated manifesto/index.html from manifesto.docx''],
                      Returned)
                   else (warnings @ [Write_index indexHtml2], Thrown Fs_write_error))
             else (warnings @ [Console_error article_not_found], Exited 1))"

definition export_instruction :: string where
  \<open>export_instruction =
     ''Please export your Google Doc as .docx and save it as "manifesto.docx" in the manifesto folder.''\<close>

definition build_manifesto_docx ::
  "('d \<Rightarrow> js_error + jsstring \<times> string list) \<Rightarrow> 'd environment \<Rightarrow> outcome" where
  "build_manifesto_docx mammoth env =
     (case source_file env of
        None \<Rightarrow>
          \<lparr>trace = [Console_error (''Error: Source file not found at '' @ sourcePath env),
                    Console_error export_instruction],
           exit_code = 1\<rparr>
      | Some docx \<Rightarrow>
          (case (case mammoth docx of
                   Inl err \<Rightarrow> ([Convert_call], Thrown err)
                 | Inr result \<Rightarrow> (case docx_then result env of (tr, c) \<Rightarrow> (Convert_call # tr, c))) of
             (tr, Returned) \<Rightarrow> \<lparr>trace = tr, exit_code = 0\<rparr>
           | (tr, Thrown err) \<Rightarrow>
               \<lparr>trace = tr @ [Console_error_with ''Error converting DOCX:'' err], exit_code = 1\<rparr>
           | (tr, Exited n) \<Rightarrow> \<lparr>trace = tr, exit_code = n\<rparr>))"

section \<open>The converter's output\<close>

text \<open>
  The fragment the DOCX script works on is the \<^verbatim>\<open>value\<close> of the result of
  \<^verbatim>\<open>mammoth.convertToHtml\<close>. The converter turns the document into a tree of elements
  and text and writes the tree with its HTML writer: text with \<^verbatim>\<open>&\<close>, \<^verbatim>\<open><\<close> and
  \<^verbatim>\<open>>\<close> escaped, the value of an attribute with \<^verbatim>\<open>"\<close> escaped as well, an element
  as its open tag, its children and its close tag, and an element without content (an
  image, a line break) as one self-closing tag \<^verbatim>\<open><name attributes />\<close>. The converter
  is a library the script calls; \<open>render\<close> follows its writer. \<open>well_formed\<close> says what
  the names of elements and attributes in its output are: lower-case letters, digits and
  hyphens, and no element but the image has a name that begins with \<^verbatim>\<open>img\<close>.
\<close>

datatype html_node =
    Text jsstring
  | Void jsstring "(jsstring \<times> jsstring) list"
  | Element jsstring "(jsstring \<times> jsstring) list" "html_node list"

definition escapeHtmlText :: "jsstring \<Rightarrow> jsstring" where
  "escapeHtmlText v =
     concat (map (\<lambda>c. if c = 0x26 then js ''&amp;''
                        else if c = 0x3C then js ''&lt;''
                        else if c = 0x3E then js ''&gt;''
                        else [c]) v)"

definition escapeHtmlAttribute :: "jsstring \<Rightarrow> jsstring" where
  "escapeHtmlAttribute v =
     concat (map (\<lambda>c. if c = 0x26 then js ''&amp;''
                        else if c = 0x22 then js ''&quot;''
                        else if c = 0x3C then js ''&lt;''
                        else if c = 0x3E then js ''&gt;''
                        else [c]) v)"

definition generateAttributeString :: "(jsstring \<times> jsstring) list \<Rightarrow> jsstring" where
  \<open>generateAttributeString attributes =
     concat (map (\<lambda>(key, v). 0x20 # key @ js ''="'' @ escapeHtmlAttribute v @ js ''"'') attributes)\<close>

fun render :: "html_node \<Rightarrow> jsstring" where
  "render (Text v) = escapeHtmlText v"
| "render (Void name attributes) =
     0x3C # name @ generateAttributeString attributes @ js '' />''"
| "render (Element name attributes children) =
     0x3C # name @ generateAttributeString attributes @ 0x3E # concat (map render children)
     @ js ''</'' @ name @ js ''>''"

definition render_nodes :: "html_node list \<Rightarrow> jsstring" where
  "render_nodes nodes = concat (map render nodes)"

definition name_char :: "jschar \<Rightarrow> bool" where
  "name_char c \<longleftrightarrow> (0x61 \<le> c \<and> c \<le> 0x7A) \<or> (0x30 \<le> c \<and> c \<le> 0x39) \<or> c = 0x2D"

definition valid_name :: "jsstring \<Rightarrow> bool" where
  "valid_name name \<longleftrightarrow> name \<noteq> [] \<and> list_all name_char name"

fun well_formed :: "html_node \<Rightarrow> bool" where
  "well_formed (Text v) = True"
| "well_formed (Void name attributes) =
     (valid_name name \<and> list_all (\<lambda>(key, v). valid_name key) attributes
      \<and> (name = js ''img'' \<or> \<not> prefix (js ''img'') name))"
| "well_formed (Element name attributes children) =
     (valid_name name \<and> list_all (\<lambda>(key, v). valid_name key) attributes
      \<and> \<not> prefix (js ''img'') name \<and> list_all well_formed children)"

text \<open>The image elements of a tree, and the tree without them.\<close>

fun image_nodes :: "html_node \<Rightarrow> nat" where
  "image_nodes (Text v) = 0"
| "image_nodes (Void name attributes) = (if name = js ''img'' then 1 else 0)"
| "image_nodes (Element name attributes children) = sum_list (map image_nodes children)"

fun strip_images :: "(jsstring \<Rightarrow> bool) \<Rightarrow> html_node \<Rightarrow> html_node list" where
  "strip_images Q (Text v) = [Text v]"
| "strip_images Q (Void name attributes) =
     (if name = js ''img'' \<and> Q (generateAttributeString attributes @ js '' /'') then []
      else [Void name attributes])"
| "strip_images Q (Element name attributes children) =
     [Element name attributes (concat (map (strip_images Q) children))]"

definition without_images :: "html_node list \<Rightarrow> html_node list" where
  "without_images nodes = concat (map (strip_images (\<lambda>b. True)) nodes)"

section \<open>Properties of fragments\<close>

text \<open>
  The notions the statements below are about. In a fragment whose tags are flat, no
  \<^verbatim>\<open><\<close> stands between a \<^verbatim>\<open><\<close> and the next \<^verbatim>\<open>>\<close>: the first argument of
  \<open>tags_flat\<close> says whether the scan is inside a tag. \<open>count_matches\<close> counts the
  places of a text where a matcher finds something. An image element of a text of HTML
  is a start tag with the name \<^verbatim>\<open>img\<close>, in upper or lower case: \<^verbatim>\<open><img\<close> and behind
  it white space, \<^verbatim>\<open>/\<close> or \<^verbatim>\<open>>\<close>, which is where the name of a tag ends;
  \<open>image_elements\<close> counts them. \<open>img_tag_match\<close> is what the two image patterns of
  the script are shown to compute: the tag from \<^verbatim>\<open><img\<close> to the next \<^verbatim>\<open>>\<close>, when
  its content satisfies \<open>Q\<close>.
\<close>

fun tags_flat :: "bool \<Rightarrow> jsstring \<Rightarrow> bool" where
  "tags_flat inside [] = True"
| "tags_flat inside (c # cs) =
     (if c = 0x3C then \<not> inside \<and> tags_flat True cs
      else if c = 0x3E then tags_flat False cs
      else tags_flat inside cs)"

definition no_lt_inside_tags :: "jsstring \<Rightarrow> bool" where
  "no_lt_inside_tags s = tags_flat False s"

text \<open>Whether the scan is inside a tag after a piece of text.\<close>

fun tag_state :: "bool \<Rightarrow> jsstring \<Rightarrow> bool" where
  "tag_state inside [] = inside"
| "tag_state inside (c # cs) =
     tag_state (if c = 0x3C then True else if c = 0x3E then False else inside) cs"

fun count_matches :: "(jsstring \<Rightarrow> nat option) \<Rightarrow> jsstring \<Rightarrow> nat" where
  "count_matches m [] = 0"
| "count_matches m (c # cs) = (if m (c # cs) = None then 0 else 1) + count_matches m cs"

definition img_start_tag :: "jsstring \<Rightarrow> nat option" where
  "img_start_tag s =
     (case s of
        a # b # c # d # e # _ \<Rightarrow>
          if a = 0x3C \<and> (b = 0x69 \<or> b = 0x49) \<and> (c = 0x6D \<or> c = 0x4D) \<and> (d = 0x67 \<or> d = 0x47)
             \<and> (e = 0x09 \<or> e = 0x0A \<or> e = 0x0C \<or> e = 0x0D \<or> e = 0x20 \<or> e = 0x2F \<or> e = 0x3E)
          then Some 4 else None
      | _ \<Rightarrow> None)"

definition image_elements :: "jsstring \<Rightarrow> nat" where
  "image_elements s = count_matches img_start_tag s"

definition img_tag_match :: "(jsstring \<Rightarrow> bool) \<Rightarrow> jsstring \<Rightarrow> nat option" where
  "img_tag_match Q s =
     (if prefix (js ''<img'') s \<and> Q (takeWhile not_gt (drop 4 s)) then
        (case dropWhile not_gt (drop 4 s) of
           [] \<Rightarrow> None
         | g # rest \<Rightarrow> Some (length s - length rest))
      else None)"

definition sentinel :: jsstring where
  \<open>sentinel = js ''class="remove-me"''\<close>

section \<open>Lemmas on strings and patterns\<close>

subsection \<open>Strings\<close>

lemma indexOf_bound: "indexOf s t = Some k \<Longrightarrow> k + length t \<le> length s \<and> prefix t (drop k s)"
proof (induction s arbitrary: k)
  case Nil
  then show ?case by (simp split: if_splits)
next
  case (Cons c cs)
  show ?case
  proof (cases "prefix t (c # cs)")
    case True
    with Cons.prems show ?thesis by (auto dest: prefix_length_le)
  next
    case False
    with Cons.prems obtain j where "indexOf cs t = Some j" "k = Suc j" by auto
    with Cons.IH show ?thesis by auto
  qed
qed

lemma indexOf_None_drop: "indexOf s t = None \<Longrightarrow> indexOf (drop j s) t = None"
proof (induction s arbitrary: j)
  case Nil
  then show ?case by simp
next
  case (Cons c cs)
  then show ?case by (cases j) (auto split: if_splits)
qed

lemma indexOf_append_first:
  "indexOf (pre @ s) t = Some (length pre) \<Longrightarrow> indexOf s t = Some 0"
proof (induction pre)
  case Nil
  then show ?case by simp
next
  case (Cons c pre)
  then show ?case by (auto split: if_splits)
qed

lemma indexOf_Some_0: "indexOf s t = Some 0 \<longleftrightarrow> prefix t s"
  by (cases s) auto

subsection \<open>The lazy star\<close>

lemma matches_Literal:
  "matches (Literal a # ts) s = (if prefix a s then matches ts (drop (length a) s) else [])"
  by simp

lemma matches_lazy_any_Nil:
  "matches (Star_lazy any_char # ts) [] = matches ts []"
  by simp

lemma matches_lazy_any_Cons:
  "matches (Star_lazy any_char # ts) (c # cs) =
     matches ts (c # cs) @ matches (Star_lazy any_char # ts) cs"
  by (simp add: any_char_def)

lemma matches_lazy_literal_None:
  "indexOf t b = None \<Longrightarrow> matches [Star_lazy any_char, Literal b] t = []"
proof (induction t)
  case Nil
  then show ?case by (simp split: if_splits)
next
  case (Cons c cs)
  then show ?case
    by (simp del: matches.simps add: matches_lazy_any_Cons matches_Literal split: if_splits)
qed

lemma matches_lazy_literal_Some:
  "indexOf t b = Some k \<Longrightarrow>
     \<exists>rest. matches [Star_lazy any_char, Literal b] t = drop (k + length b) t # rest"
proof (induction t arbitrary: k)
  case Nil
  then show ?case by (simp split: if_splits)
next
  case (Cons c cs)
  show ?case
  proof (cases "prefix b (c # cs)")
    case True
    with Cons.prems show ?thesis
      by (simp del: matches.simps add: matches_lazy_any_Cons matches_Literal matches.simps(1))
  next
    case False
    with Cons.prems obtain j where j: "indexOf cs b = Some j" "k = Suc j" by auto
    from Cons.IH [OF j(1)] False j(2) show ?thesis
      by (auto simp del: matches.simps simp add: matches_lazy_any_Cons matches_Literal)
  qed
qed

lemma match_at_lazy:
  "match_at [Literal a, Star_lazy any_char, Literal b] s =
     (if prefix a s
      then map_option (\<lambda>k. length a + k + length b) (indexOf (drop (length a) s) b)
      else None)"
proof (cases "prefix a s")
  case False
  then show ?thesis by (simp add: match_at_def)
next
  case True
  have m: "matches [Literal a, Star_lazy any_char, Literal b] s =
       matches [Star_lazy any_char, Literal b] (drop (length a) s)"
    using True by simp
  show ?thesis
  proof (cases "indexOf (drop (length a) s) b")
    case None
    then show ?thesis
      using True matches_lazy_literal_None [of "drop (length a) s" b]
      by (simp add: match_at_def m del: matches.simps)
  next
    case (Some k)
    from indexOf_bound [OF Some] have "k + length b \<le> length s - length a" by simp
    moreover from True have "length a \<le> length s" by (rule prefix_length_le)
    moreover from matches_lazy_literal_Some [OF Some] obtain rest where
      "matches [Star_lazy any_char, Literal b] (drop (length a) s) =
         drop (k + length b) (drop (length a) s) # rest" ..
    ultimately show ?thesis
      using True Some
      by (simp add: match_at_def m del: matches.simps)
  qed
qed

lemma regex_exec_lazy:
  assumes "a \<noteq> []"
  shows "regex_exec (match_at [Literal a, Star_lazy any_char, Literal b]) s =
     (case indexOf s a of
        None \<Rightarrow> None
      | Some i \<Rightarrow> map_option (\<lambda>k. (i, length a + k + length b)) (indexOf (drop (i + length a) s) b))"
proof -
  define m where "m = match_at [Literal a, Star_lazy any_char, Literal b]"
  have m: "m t = (if prefix a t
      then map_option (\<lambda>k. length a + k + length b) (indexOf (drop (length a) t) b)
      else None)" for t
    unfolding m_def by (rule match_at_lazy)
  have "regex_exec m s =
     (case indexOf s a of
        None \<Rightarrow> None
      | Some i \<Rightarrow> map_option (\<lambda>k. (i, length a + k + length b)) (indexOf (drop (i + length a) s) b))"
  proof (induction s)
    case Nil
    then show ?case using assms m [of "[]"] by simp
  next
    case (Cons c cs)
    note here = m [of "c # cs"]
    show ?case
    proof (cases "prefix a (c # cs)")
      case False
      then show ?thesis
        using Cons.IH here
        by (cases "indexOf cs a") (auto simp add: option.map_comp comp_def split: option.splits)
    next
      case True
      show ?thesis
      proof (cases "indexOf (drop (length a) (c # cs)) b")
        case (Some k)
        then show ?thesis using True here by simp
      next
        case None
        from assms obtain a' where a: "length a = Suc a'" by (cases a) auto
        from None a have n: "indexOf (drop a' cs) b = None" by simp
        have later: "indexOf (drop (i + length a) cs) b = None" for i
          using indexOf_None_drop [OF n, of "Suc i"] a by (simp add: add.commute)
        have "regex_exec m cs = None"
          unfolding Cons.IH by (simp add: later split: option.splits)
        then show ?thesis using True None here by simp
      qed
    qed
  qed
  then show ?thesis by (simp only: m_def)
qed

lemma regex_exec_region:
  assumes "a \<noteq> []"
    and "indexOf (pre @ a @ mid @ b @ post) a = Some (length pre)"
    and "indexOf (mid @ b @ post) b = Some (length mid)"
  shows "regex_exec (match_at [Literal a, Star_lazy any_char, Literal b]) (pre @ a @ mid @ b @ post)
           = Some (length pre, length (a @ mid @ b))"
  using assms by (simp add: regex_exec_lazy)

lemma replace_regex_region:
  assumes "a \<noteq> []"
    and "indexOf (pre @ a @ mid @ b @ post) a = Some (length pre)"
    and "indexOf (mid @ b @ post) b = Some (length mid)"
  shows "replace_regex [Literal a, Star_lazy any_char, Literal b] (pre @ a @ mid @ b @ post) repl
           = pre @ getSubstitution (a @ mid @ b) pre post repl @ post"
  using regex_exec_region [OF assms] by (simp add: replace_regex_def)

lemma getSubstitution_no_dollar:
  "0x24 \<notin> set t \<Longrightarrow> getSubstitution m p q t = t"
  by (induction m p q t rule: getSubstitution.induct) auto

subsection \<open>The greedy star\<close>

lemma matches_greedy_Nil: "matches (Star_greedy p # ts) [] = matches ts []"
  by simp

lemma matches_greedy_Cons:
  "matches (Star_greedy p # ts) (c # cs) =
     (if p c then matches (Star_greedy p # ts) cs else []) @ matches ts (c # cs)"
  by simp

lemma matches_Nil: "matches [] s = [s]"
  by simp

lemma matches_greedy_gt:
  "matches [Star_greedy not_gt, Literal [0x3E]] s =
     (case dropWhile not_gt s of [] \<Rightarrow> [] | g # rest \<Rightarrow> [rest])"
proof (induction s)
  case Nil
  show ?case by simp
next
  case (Cons c cs)
  show ?case
  proof (cases "not_gt c")
    case True
    then show ?thesis
      using Cons.IH
      by (simp del: matches.simps add: matches_greedy_Cons matches_Literal not_gt_def)
  next
    case False
    then show ?thesis
      by (simp del: matches.simps add: matches_greedy_Cons matches_Literal matches_Nil not_gt_def)
  qed
qed

lemma js_gt: "js ''>'' = [0x3E]"
  by (simp add: js_def)

lemma match_at_imgRegex: "match_at imgRegex s = img_tag_match (\<lambda>b. True) s"
proof (cases "prefix (js ''<img'') s")
  case False
  then show ?thesis by (simp add: match_at_def imgRegex_def img_tag_match_def)
next
  case True
  have "length (js ''<img'') = 4" by (simp add: js_def)
  then have "matches imgRegex s = matches [Star_greedy not_gt, Literal [0x3E]] (drop 4 s)"
    using True unfolding imgRegex_def js_gt by (simp only: matches_Literal if_True)
  then have m: "matches imgRegex s =
      (case dropWhile not_gt (drop 4 s) of [] \<Rightarrow> [] | g # rest \<Rightarrow> [rest])"
    by (simp only: matches_greedy_gt)
  show ?thesis
  proof (cases "dropWhile not_gt (drop 4 s)")
    case Nil
    from True show ?thesis by (simp add: match_at_def img_tag_match_def m Nil)
  next
    case (Cons g rest)
    from True show ?thesis by (simp add: match_at_def img_tag_match_def m Cons)
  qed
qed

text \<open>The sentinel pattern: the literal lies in the tag, before its closing bracket.\<close>

lemma includes_str_Nil: "includes_str [] t = (t = [])"
  by (simp add: includes_str_def)

lemma includes_str_Cons: "includes_str (c # cs) t = (prefix t (c # cs) \<or> includes_str cs t)"
  by (simp add: includes_str_def)

lemma prefix_takeWhile:
  assumes "\<forall>x\<in>set t. p x"
  shows "prefix t (takeWhile p s) = prefix t s"
proof
  assume "prefix t (takeWhile p s)"
  then show "prefix t s"
    by (metis prefix_order.order_trans prefixI takeWhile_dropWhile_id)
next
  assume "prefix t s"
  then obtain r where "s = t @ r" by (auto simp: prefix_def)
  with assms show "prefix t (takeWhile p s)"
    by (simp add: takeWhile_append2)
qed

lemma dropWhile_drop_prefix:
  assumes "\<forall>x\<in>set t. p x" and "prefix t s"
  shows "dropWhile p (drop (length t) s) = dropWhile p s"
proof -
  from assms(2) obtain r where "s = t @ r" by (auto simp: prefix_def)
  with assms(1) show ?thesis by (simp add: dropWhile_append2)
qed

lemma matches_sentinel:
  assumes "t \<noteq> []" and "\<forall>x\<in>set t. not_gt x"
  shows "(matches [Star_greedy not_gt, Literal t, Star_greedy not_gt, Literal [0x3E]] s \<noteq> []
            \<longleftrightarrow> includes_str (takeWhile not_gt s) t \<and> dropWhile not_gt s \<noteq> [])
         \<and> set (matches [Star_greedy not_gt, Literal t, Star_greedy not_gt, Literal [0x3E]] s)
            \<subseteq> (case dropWhile not_gt s of [] \<Rightarrow> {} | g # rest \<Rightarrow> {rest})"
proof (induction s)
  case Nil
  show ?case using assms by (simp add: includes_str_Nil)
next
  case (Cons c cs)
  have here: "matches [Literal t, Star_greedy not_gt, Literal [0x3E]] (c # cs) =
      (if prefix t (c # cs)
       then (case dropWhile not_gt (c # cs) of [] \<Rightarrow> [] | g # rest \<Rightarrow> [rest]) else [])"
  proof (cases "prefix t (c # cs)")
    case True
    have "matches [Literal t, Star_greedy not_gt, Literal [0x3E]] (c # cs) =
        matches [Star_greedy not_gt, Literal [0x3E]] (drop (length t) (c # cs))"
      by (subst matches_Literal) (simp only: True if_True)
    also have "\<dots> = (case dropWhile not_gt (drop (length t) (c # cs)) of
                       [] \<Rightarrow> [] | g # rest \<Rightarrow> [rest])"
      by (rule matches_greedy_gt)
    also have "\<dots> = (case dropWhile not_gt (c # cs) of [] \<Rightarrow> [] | g # rest \<Rightarrow> [rest])"
      by (simp only: dropWhile_drop_prefix [OF assms(2) True])
    finally show ?thesis by (simp only: True if_True)
  next
    case False
    then show ?thesis by (subst matches_Literal) (simp only: if_False)
  qed
  show ?case
  proof (cases "not_gt c")
    case True
    have p: "prefix t (c # takeWhile not_gt cs) = prefix t (c # cs)"
      using prefix_takeWhile [OF assms(2), of "c # cs"] True by simp
    have tw: "takeWhile not_gt (c # cs) = c # takeWhile not_gt cs"
      and dw: "dropWhile not_gt (c # cs) = dropWhile not_gt cs"
      using True by simp_all
    have f: "matches [Star_greedy not_gt, Literal t, Star_greedy not_gt, Literal [0x3E]] (c # cs) =
        matches [Star_greedy not_gt, Literal t, Star_greedy not_gt, Literal [0x3E]] cs
        @ (if prefix t (c # cs)
           then (case dropWhile not_gt cs of [] \<Rightarrow> [] | g # rest \<Rightarrow> [rest]) else [])"
      by (simp only: matches_greedy_Cons True if_True here dw)
    note IH = Cons.IH
    show ?thesis
    proof (cases "dropWhile not_gt cs")
      case Nil
      from IH have "matches [Star_greedy not_gt, Literal t, Star_greedy not_gt, Literal [0x3E]] cs = []"
        by (simp add: Nil)
      then show ?thesis
        by (simp only: f tw dw Nil list.case if_cancel append_Nil2 simp_thms set_simps subset_refl)
    next
      case (Cons g rest)
      from IH have i1: "matches [Star_greedy not_gt, Literal t, Star_greedy not_gt, Literal [0x3E]] cs \<noteq> []
            \<longleftrightarrow> includes_str (takeWhile not_gt cs) t"
        and i2: "set (matches [Star_greedy not_gt, Literal t, Star_greedy not_gt, Literal [0x3E]] cs) \<subseteq> {rest}"
        by (simp_all add: Cons)
      show ?thesis
        unfolding f tw dw Cons list.case includes_str_Cons p
        using i1 i2 by auto
    qed
  next
    case False
    with assms have "\<not> prefix t (c # cs)"
      by (cases t) auto
    then show ?thesis
      using False assms(1)
      by (simp del: matches.simps add: matches_greedy_Cons here includes_str_Nil)
  qed
qed

lemma match_at_sentinelImgRegex:
  "match_at sentinelImgRegex s = img_tag_match (\<lambda>b. includes_str b sentinel) s"
proof (cases "prefix (js ''<img'') s")
  case False
  then show ?thesis by (simp add: match_at_def sentinelImgRegex_def img_tag_match_def)
next
  case True
  have s: "sentinel \<noteq> []" "\<forall>x\<in>set sentinel. not_gt x"
    by (simp_all add: sentinel_def js_def not_gt_def)
  have "length (js ''<img'') = 4" by (simp add: js_def)
  then have m: "matches sentinelImgRegex s =
      matches [Star_greedy not_gt, Literal sentinel, Star_greedy not_gt, Literal [0x3E]] (drop 4 s)"
    using True unfolding sentinelImgRegex_def js_gt sentinel_def
    by (simp only: matches_Literal if_True)
  note ms = matches_sentinel [OF s, of "drop 4 s", folded m]
  show ?thesis
  proof (cases "dropWhile not_gt (drop 4 s)")
    case Nil
    from ms have "matches sentinelImgRegex s = []" by (simp add: Nil)
    then show ?thesis by (simp add: match_at_def img_tag_match_def Nil)
  next
    case (Cons g rest)
    show ?thesis
    proof (cases "includes_str (takeWhile not_gt (drop 4 s)) sentinel")
      case False
      with ms have "matches sentinelImgRegex s = []" by simp
      with False show ?thesis by (simp add: match_at_def img_tag_match_def)
    next
      case yes: True
      from ms yes have "matches sentinelImgRegex s \<noteq> []" by (simp add: Cons)
      then obtain r rs where r: "matches sentinelImgRegex s = r # rs"
        by (cases "matches sentinelImgRegex s") auto
      from ms have "r = rest" by (simp add: r Cons)
      with r yes True show ?thesis by (simp add: match_at_def img_tag_match_def Cons)
    qed
  qed
qed

subsection \<open>Removing image tags\<close>

lemma js_img: "js ''<img'' = 0x3C # js ''img''" "length (js ''img'') = 3"
  "0x3E \<notin> set (js ''img'')"
  by (simp_all add: js_def)

lemma img_tag_match_lt: "c \<noteq> 0x3C \<Longrightarrow> img_tag_match Q (c # cs) = None"
  by (simp add: img_tag_match_def js_img)

lemma img_tag_match_Nil: "img_tag_match Q [] = None"
  by (simp add: img_tag_match_def js_img)

lemma img_tag_match_tag:
  assumes "\<forall>x\<in>set body. not_gt x" and "u = [] \<or> hd u = 0x3E"
  shows "img_tag_match Q (0x3C # body @ u) \<noteq> None
           \<longleftrightarrow> prefix (js ''img'') body \<and> Q (drop 3 body) \<and> u \<noteq> []"
proof -
  have u: "takeWhile not_gt u = []" "dropWhile not_gt u = u"
    using assms(2) by (cases u; simp add: not_gt_def)+
  have pre: "prefix (js ''img'') (body @ u) \<longleftrightarrow> prefix (js ''img'') body"
  proof
    assume "prefix (js ''img'') (body @ u)"
    then have "prefix (js ''img'') (takeWhile not_gt (body @ u))"
      by (subst prefix_takeWhile) (simp_all add: js_def not_gt_def)
    then show "prefix (js ''img'') body"
      using assms(1) u by (simp add: takeWhile_append2)
  qed simp
  show ?thesis
  proof (cases "prefix (js ''img'') body")
    case False
    with pre show ?thesis by (simp add: img_tag_match_def js_img)
  next
    case True
    then obtain r where body: "body = js ''img'' @ r" by (auto simp: prefix_def)
    with assms(1) have r: "\<forall>x\<in>set r. not_gt x" by simp
    have d: "drop 4 (0x3C # body @ u) = r @ u" "drop 3 body = r"
      by (simp_all add: body js_img)
    have tw: "takeWhile not_gt (r @ u) = r" and dw: "dropWhile not_gt (r @ u) = u"
      using r u by (simp_all add: takeWhile_append2 dropWhile_append2)
    have p: "prefix (js ''<img'') (0x3C # body @ u)"
      using True by (simp add: js_img(1))
    have "img_tag_match Q (0x3C # body @ u) =
        (if Q r then (case u of [] \<Rightarrow> None
                      | g # rest \<Rightarrow> Some (length (0x3C # body @ u) - length rest))
         else None)"
      unfolding img_tag_match_def d tw dw by (simp only: p simp_thms)
    then show ?thesis
      using True by (cases u) (simp_all add: d(2))
  qed
qed

lemma tags_flat_inside:
  "tags_flat True s \<Longrightarrow>
     0x3C \<notin> set (takeWhile not_gt s)
     \<and> (\<forall>g rest. dropWhile not_gt s = g # rest \<longrightarrow> g = 0x3E \<and> tags_flat False rest)"
proof (induction s)
  case Nil
  then show ?case by simp
next
  case (Cons c cs)
  from Cons.prems have c: "c \<noteq> 0x3C" by (auto split: if_splits)
  show ?case
  proof (cases "c = 0x3E")
    case True
    with Cons.prems show ?thesis by (simp add: not_gt_def)
  next
    case False
    with c Cons.prems have "tags_flat True cs" by simp
    note IH = Cons.IH [OF this]
    from False have ng: "not_gt c" by (simp add: not_gt_def)
    then have tw: "takeWhile not_gt (c # cs) = c # takeWhile not_gt cs"
      and dw: "dropWhile not_gt (c # cs) = dropWhile not_gt cs"
      by simp_all
    from IH c have "0x3C \<notin> set (takeWhile not_gt (c # cs))"
      unfolding tw by simp
    moreover from IH
    have "\<forall>g rest. dropWhile not_gt (c # cs) = g # rest \<longrightarrow> g = 0x3E \<and> tags_flat False rest"
      unfolding dw by blast
    ultimately show ?thesis by blast
  qed
qed

lemma tags_flat_append:
  "0x3C \<notin> set xs \<Longrightarrow> 0x3E \<notin> set xs \<Longrightarrow> tags_flat b (xs @ ys) = tags_flat b ys"
  by (induction xs) auto

lemma remove_all_inside:
  "tags_flat True s \<Longrightarrow>
     remove_all (img_tag_match Q) s =
       takeWhile not_gt s
       @ (case dropWhile not_gt s of [] \<Rightarrow> [] | g # rest \<Rightarrow> g # remove_all (img_tag_match Q) rest)"
proof (induction s)
  case Nil
  then show ?case by simp
next
  case (Cons c cs)
  then have c: "c \<noteq> 0x3C" by (auto split: if_splits)
  then have m: "img_tag_match Q (c # cs) = None"
    by (rule img_tag_match_lt)
  show ?case
  proof (cases "c = 0x3E")
    case True
    then show ?thesis by (simp add: img_tag_match_lt not_gt_def)
  next
    case False
    with Cons c show ?thesis by (simp add: img_tag_match_lt not_gt_def)
  qed
qed

lemma count_matches_no_lt:
  "0x3C \<notin> set xs \<Longrightarrow>
     count_matches (img_tag_match Q) (xs @ ys) = count_matches (img_tag_match Q) ys"
proof (induction xs)
  case Nil
  then show ?case by simp
next
  case (Cons x xs)
  then have "img_tag_match Q (x # xs @ ys) = None"
    by (simp add: img_tag_match_lt)
  with Cons show ?case by simp
qed

lemma img_tag_match_Some:
  assumes "img_tag_match Q (c # cs) = Some n"
  shows "\<exists>g rest. c = 0x3C \<and> dropWhile not_gt cs = g # rest \<and> drop n (c # cs) = rest \<and> 0 < n"
proof -
  from assms have p: "prefix (js ''<img'') (c # cs)"
    by (simp add: img_tag_match_def split: if_splits)
  then have c: "c = 0x3C" and pi: "prefix (js ''img'') cs" by (simp_all add: js_img)
  have "\<forall>x\<in>set (js ''img''). not_gt x" by (simp add: js_def not_gt_def)
  from dropWhile_drop_prefix [OF this pi]
  have d: "dropWhile not_gt (drop 3 cs) = dropWhile not_gt cs"
    by (simp only: js_img(2))
  from assms p obtain g rest where g: "dropWhile not_gt (drop 3 cs) = g # rest"
    and n: "n = length (c # cs) - length rest"
    by (auto simp add: img_tag_match_def split: if_splits list.splits)
  have "length (dropWhile not_gt cs) \<le> length cs" by (rule length_dropWhile_le)
  with g d have len: "length rest < length cs" by simp
  have "drop (length cs - length (dropWhile not_gt cs)) cs = dropWhile not_gt cs"
    by (metis (no_types) append_eq_conv_conj length_append add_diff_cancel_right'
        takeWhile_dropWhile_id)
  with g d have "drop (length cs - Suc (length rest)) cs = g # rest" by simp
  then have "drop (Suc (length cs - Suc (length rest))) cs = rest"
    by (metis drop_Suc tl_drop list.sel(3))
  moreover from len have "Suc (length cs - Suc (length rest)) = length cs - length rest"
    by arith
  ultimately have "drop (length cs - length rest) cs = rest" by simp
  with len n c g d show ?thesis
    by (auto simp add: Suc_diff_le)
qed

lemma tags_flat_outside_Cons:
  "c \<noteq> 0x3C \<Longrightarrow> tags_flat False (c # cs) = tags_flat False cs"
  by simp

lemma count_matches_other_Cons:
  "c \<noteq> 0x3C \<Longrightarrow>
     count_matches (img_tag_match Q) (c # cs) = count_matches (img_tag_match Q) cs"
  by (simp add: img_tag_match_lt)

lemma remove_all_flat:
  "tags_flat False s \<Longrightarrow>
     tags_flat False (remove_all (img_tag_match Q) s)
     \<and> count_matches (img_tag_match Q) (remove_all (img_tag_match Q) s) = 0"
proof (induction s rule: length_induct)
  case (1 s)
  note IH = "1.IH" [rule_format]
  note flat = "1.prems"
  show ?case
  proof (cases s)
    case Nil
    then show ?thesis by simp
  next
    case (Cons c cs)
    have len_cs: "length cs < length s" by (simp add: Cons)
    show ?thesis
    proof (cases "c = 0x3C")
      case False
      then have m: "img_tag_match Q (c # cs) = None"
        by (rule img_tag_match_lt)
      have res: "remove_all (img_tag_match Q) s = c # remove_all (img_tag_match Q) cs"
        unfolding Cons by (simp add: m)
      from flat have "tags_flat False cs"
        unfolding Cons tags_flat_outside_Cons [OF False] .
      from IH [OF len_cs this] show ?thesis
        unfolding res tags_flat_outside_Cons [OF False] count_matches_other_Cons [OF False] .
    next
      case True
      from flat have inside: "tags_flat True cs" unfolding Cons True by simp
      note ins = tags_flat_inside [OF inside]
      from ins have ins1: "0x3C \<notin> set (takeWhile not_gt cs)" by blast
      show ?thesis
      proof (cases "img_tag_match Q (c # cs)")
        case (Some n)
        from img_tag_match_Some [OF Some] obtain g rest where
          r: "dropWhile not_gt cs = g # rest" "drop n (c # cs) = rest" "0 < n" by auto
        from ins r(1) have fr: "tags_flat False rest" by blast
        have "length (drop n (c # cs)) < length s"
          using r(3) unfolding Cons by simp
        then have lr: "length rest < length s" unfolding r(2) .
        have res: "remove_all (img_tag_match Q) s = remove_all (img_tag_match Q) rest"
          unfolding Cons using r(2,3) by (simp add: Some)
        from IH [OF lr fr] show ?thesis unfolding res .
      next
        case None
        define body where "body = takeWhile not_gt cs"
        define tail where "tail = dropWhile not_gt cs"
        define u where "u = (case tail of [] \<Rightarrow> []
                              | g # rest \<Rightarrow> g # remove_all (img_tag_match Q) rest)"
        have body: "\<forall>x\<in>set body. not_gt x" "0x3C \<notin> set body" "0x3E \<notin> set body"
          using ins1 by (auto simp add: body_def not_gt_def dest: set_takeWhileD)
        have "remove_all (img_tag_match Q) s = c # remove_all (img_tag_match Q) cs"
          unfolding Cons by (simp add: None)
        then have res: "remove_all (img_tag_match Q) s = 0x3C # body @ u"
          unfolding remove_all_inside [OF inside, of Q] body_def u_def tail_def True .
        have cs: "cs = body @ tail" by (simp add: body_def tail_def)
        have u: "(u = [] \<or> hd u = 0x3E) \<and> (u = [] \<longleftrightarrow> tail = [])
                 \<and> tags_flat True u \<and> count_matches (img_tag_match Q) u = 0"
        proof (cases tail)
          case Nil
          then show ?thesis by (simp add: u_def)
        next
          case (Cons g rest)
          with ins have g: "g = 0x3E" and fr: "tags_flat False rest"
            unfolding tail_def by blast+
          have "length (dropWhile not_gt cs) \<le> length cs" by (rule length_dropWhile_le)
          with Cons len_cs have "length rest < length s" unfolding tail_def by simp
          note IH [OF this fr]
          moreover have ug: "u = 0x3E # remove_all (img_tag_match Q) rest"
            by (simp add: u_def Cons g)
          moreover have "tags_flat True (0x3E # remove_all (img_tag_match Q) rest)
              = tags_flat False (remove_all (img_tag_match Q) rest)" by simp
          moreover have "count_matches (img_tag_match Q) (0x3E # remove_all (img_tag_match Q) rest)
              = count_matches (img_tag_match Q) (remove_all (img_tag_match Q) rest)"
            by (rule count_matches_other_Cons) simp
          ultimately show ?thesis using Cons by simp
        qed
        have tail_hd: "tail = [] \<or> hd tail = 0x3E"
        proof (cases tail)
          case Nil
          then show ?thesis by simp
        next
          case (Cons g rest)
          with ins have "g = 0x3E" unfolding tail_def by blast
          with Cons show ?thesis by simp
        qed
        have "img_tag_match Q (0x3C # body @ tail) = None"
          using None unfolding True cs [symmetric] .
        with img_tag_match_tag [OF body(1) tail_hd, of Q]
        have "\<not> (prefix (js ''img'') body \<and> Q (drop 3 body) \<and> tail \<noteq> [])"
          by simp
        with u have "\<not> (prefix (js ''img'') body \<and> Q (drop 3 body) \<and> u \<noteq> [])"
          by blast
        with img_tag_match_tag [OF body(1), of u Q] u
        have no: "img_tag_match Q (0x3C # body @ u) = None"
          by blast
        have f: "tags_flat False (0x3C # body @ u) = tags_flat True u"
          using tags_flat_append [OF body(2,3), of True u] by simp
        have k: "count_matches (img_tag_match Q) (0x3C # body @ u)
              = count_matches (img_tag_match Q) u"
          using count_matches_no_lt [OF body(2), of Q u] by (simp add: no)
        from u show ?thesis unfolding res f k by blast
      qed
    qed
  qed
qed

lemma remove_all_none:
  "count_matches m s = 0 \<Longrightarrow> remove_all m s = s"
  by (induction s) (auto split: if_splits)

subsection \<open>The footnote step\<close>

lemma regex_exec_Some:
  "regex_exec m s = Some (i, n) \<Longrightarrow> i \<le> length s \<and> m (drop i s) = Some n"
proof (induction s arbitrary: i)
  case Nil
  then show ?case by auto
next
  case (Cons c cs)
  show ?case
  proof (cases "m (c # cs)")
    case (Some k)
    with Cons.prems show ?thesis by simp
  next
    case None
    with Cons.prems obtain j where "regex_exec m cs = Some (j, n)" "i = Suc j"
      by (auto split: option.splits)
    with Cons.IH [of j] show ?thesis by simp
  qed
qed

lemma matches_lazy_nonempty:
  "matches (Star_lazy any_char # ts) s \<noteq> [] \<Longrightarrow> \<exists>k\<le>length s. matches ts (drop k s) \<noteq> []"
proof (induction s)
  case Nil
  then show ?case by (simp del: matches.simps add: matches_lazy_any_Nil)
next
  case (Cons c cs)
  show ?case
  proof (cases "matches ts (c # cs) = []")
    case False
    then have "matches ts (drop 0 (c # cs)) \<noteq> []" by simp
    then show ?thesis by blast
  next
    case True
    with Cons.prems have "matches (Star_lazy any_char # ts) cs \<noteq> []"
      by (simp del: matches.simps add: matches_lazy_any_Cons)
    from Cons.IH [OF this] obtain k where "k \<le> length cs" "matches ts (drop k cs) \<noteq> []"
      by blast
    then have "Suc k \<le> length (c # cs)" "matches ts (drop (Suc k) (c # cs)) \<noteq> []"
      by simp_all
    then show ?thesis by blast
  qed
qed

lemma matches_greedy_end:
  "matches [Star_greedy p, End_of_input] v \<noteq> [] \<Longrightarrow> \<forall>c\<in>set v. p c"
proof (induction v)
  case Nil
  then show ?case by simp
next
  case (Cons c cs)
  have "matches [End_of_input] (c # cs) = []" by simp
  with Cons.prems have "p c" "matches [Star_greedy p, End_of_input] cs \<noteq> []"
    by (simp_all del: matches.simps add: matches_greedy_Cons split: if_splits)
  with Cons.IH show ?case by simp
qed

lemma olTail_match_shape:
  assumes "match_at olTailRegex t \<noteq> None"
  shows "\<exists>y v. t = y @ js ''</ol>'' @ v \<and> (\<forall>c\<in>set v. white_space c)"
proof -
  from assms have ne: "matches olTailRegex t \<noteq> []"
    by (auto simp add: match_at_def split: list.splits)
  have "matches olTailRegex t =
      (if prefix (js ''<ol>'') t
       then matches [Star_lazy any_char, Literal (js ''</ol>''), Star_greedy white_space,
              End_of_input] (drop (length (js ''<ol>'')) t)
       else [])"
    unfolding olTailRegex_def by (rule matches_Literal)
  with ne have "matches [Star_lazy any_char, Literal (js ''</ol>''), Star_greedy white_space,
      End_of_input] (drop (length (js ''<ol>'')) t) \<noteq> []"
    by (simp del: matches.simps split: if_splits)
  from matches_lazy_nonempty [OF this] obtain k where
    k: "matches [Literal (js ''</ol>''), Star_greedy white_space, End_of_input]
          (drop k (drop (length (js ''<ol>'')) t)) \<noteq> []" by blast
  define w where "w = drop k (drop (length (js ''<ol>'')) t)"
  have "matches [Literal (js ''</ol>''), Star_greedy white_space, End_of_input] w =
      (if prefix (js ''</ol>'') w
       then matches [Star_greedy white_space, End_of_input] (drop (length (js ''</ol>'')) w)
       else [])"
    by (rule matches_Literal)
  with k have pw: "prefix (js ''</ol>'') w"
    and "matches [Star_greedy white_space, End_of_input] (drop (length (js ''</ol>'')) w) \<noteq> []"
    unfolding w_def [symmetric] by (simp_all del: matches.simps split: if_splits)
  note this(2)
  from matches_greedy_end [OF this]
  have ws: "\<forall>c\<in>set (drop (length (js ''</ol>'')) w). white_space c" .
  from pw have "w = js ''</ol>'' @ drop (length (js ''</ol>'')) w"
    by (metis append_eq_conv_conj prefix_def)
  moreover have "t = take (k + length (js ''<ol>'')) t @ w"
    by (simp add: w_def add.commute)
  ultimately have "t = take (k + length (js ''<ol>'')) t @ js ''</ol>''
      @ drop (length (js ''</ol>'')) w" by simp
  with ws show ?thesis by blast
qed

lemma dropWhile_keeps_suffix:
  assumes "z \<noteq> []" and "\<not> p (hd z)"
  shows "\<exists>y'. dropWhile p (y @ z) = y' @ z"
proof (cases "\<forall>x\<in>set y. p x")
  case True
  with assms have "dropWhile p (y @ z) = [] @ z"
    by (cases z) (simp_all add: dropWhile_append2)
  then show ?thesis by blast
next
  case False
  then obtain x where "x \<in> set y" "\<not> p x" by blast
  then have "dropWhile p (y @ z) = dropWhile p y @ z"
    by (rule dropWhile_append1)
  then show ?thesis by blast
qed

lemma trim_keeps_end:
  assumes "z \<noteq> []" and "\<not> white_space (hd z)" and "\<not> white_space (last z)"
    and "\<forall>c\<in>set v. white_space c"
  shows "\<exists>y'. trim (y @ z @ v) = y' @ z"
proof -
  from assms(1) have rz: "rev z \<noteq> []" "hd (rev z) = last z" by (simp_all add: hd_rev)
  have "dropWhile white_space (rev (y @ z @ v)) = dropWhile white_space (rev v @ (rev z @ rev y))"
    by simp
  also have "\<dots> = dropWhile white_space (rev z @ rev y)"
    using assms(4) by (subst dropWhile_append2) simp_all
  also have "\<dots> = rev z @ rev y"
  proof (cases "rev z")
    case Nil
    with rz show ?thesis by simp
  next
    case (Cons a as)
    with rz assms(3) have "\<not> white_space a" by simp
    then show ?thesis by (simp add: Cons)
  qed
  finally have "trim (y @ z @ v) = dropWhile white_space (y @ z)"
    by (simp add: trim_def)
  with dropWhile_keeps_suffix [of z white_space y, OF assms(1,2)] show ?thesis by simp
qed

lemma ol_close: "js ''</ol>'' \<noteq> []" "\<not> white_space (hd (js ''</ol>''))"
  "\<not> white_space (last (js ''</ol>''))"
  by (simp_all add: js_def white_space_def)

lemma olTail_implies_trimmed_end:
  assumes "regex_exec (match_at olTailRegex) s \<noteq> None"
  shows "endsWith (trim s) (js ''</ol>'')"
proof -
  from assms obtain i n where "regex_exec (match_at olTailRegex) s = Some (i, n)" by auto
  from regex_exec_Some [OF this] have "match_at olTailRegex (drop i s) \<noteq> None" by simp
  from olTail_match_shape [OF this] obtain y v where
    yv: "drop i s = y @ js ''</ol>'' @ v" "\<forall>c\<in>set v. white_space c" by blast
  have "s = (take i s @ y) @ js ''</ol>'' @ v"
    using yv(1) by (metis append_take_drop_id append.assoc)
  with trim_keeps_end [OF ol_close yv(2), of "take i s @ y"]
  obtain y' where "trim s = y' @ js ''</ol>''" by auto
  then show ?thesis by (simp add: endsWith_def)
qed

text \<open>The fallback branch of the footnote step never changes the fragment.\<close>

lemma fixFootnotes_eq:
  "fixFootnotes s =
     (if endsWith (trim s) (js ''</ol>'') then
        (case lastIndexOf s (js ''<ol>'') of
           None \<Rightarrow> s
         | Some i \<Rightarrow>
             if has_footnote_marker (drop i s)
             then take i s @ citationsOpen @ drop i s @ citationsClose
             else s)
      else s)"
proof (cases "endsWith (trim s) (js ''</ol>'')")
  case True
  then show ?thesis by (simp add: fixFootnotes_def Let_def split: option.splits)
next
  case False
  with olTail_implies_trimmed_end [of s]
  have "regex_exec (match_at olTailRegex) s = None" by blast
  with False show ?thesis by (simp add: fixFootnotes_def)
qed

lemma div_close: "js ''</div>'' \<noteq> []" "\<not> white_space (hd (js ''</div>''))"
  "\<not> white_space (last (js ''</div>''))"
  by (simp_all add: js_def white_space_def)

lemma wrapped_not_ol_end:
  "\<not> endsWith (trim (x @ citationsClose)) (js ''</ol>'')"
proof -
  have c: "x @ citationsClose = (x @ js ''\<newline>'') @ js ''</div>'' @ []"
    by (simp add: citationsClose_def js_def)
  from trim_keeps_end [OF div_close, of "[]" "x @ js ''\<newline>''"]
  obtain y' where "trim (x @ citationsClose) = y' @ js ''</div>''"
    unfolding c by auto
  then show ?thesis by (simp add: endsWith_def js_def)
qed

lemma fixFootnotes_idem: "fixFootnotes (fixFootnotes s) = fixFootnotes s"
proof (cases "fixFootnotes s = s")
  case True
  then show ?thesis by simp
next
  case False
  then obtain i where "fixFootnotes s = take i s @ citationsOpen @ drop i s @ citationsClose"
    unfolding fixFootnotes_eq [of s] by (auto split: if_splits option.splits)
  then have r: "fixFootnotes s = (take i s @ citationsOpen @ drop i s) @ citationsClose"
    by simp
  show ?thesis
    unfolding fixFootnotes_eq [of "fixFootnotes s"]
    using wrapped_not_ol_end [of "take i s @ citationsOpen @ drop i s"]
    unfolding r [symmetric] by simp
qed

subsection \<open>What a run writes\<close>

lemma markdown_written:
  assumes "source_file env = Some markdown" and "marked_parse markdown = Inr html"
    and "index_html env = Some template" and "regex_test articleRegex template"
  shows "written (build_manifesto marked_parse env) =
           [replace_regex articleRegex template (newArticle html)]"
  using assms by (simp add: build_manifesto_def markdown_try_def written_def Let_def)

lemma docx_written:
  assumes "source_file env = Some docx" and "mammoth docx = Inr (html, messages)"
    and "index_html env = Some template" and "regex_test articleRegex template"
  shows "written (build_manifesto_docx mammoth env) =
           [replace_regex citationsRegex
              (replace_regex articleRegex template (newArticle (normalize html))) []]"
  using assms by (simp add: build_manifesto_docx_def docx_then_def written_def Let_def)

lemma article_open_nonempty: "js ''<article>'' \<noteq> []"
  by (simp add: js_def)

lemma article_region:
  assumes "template = pre @ js ''<article>'' @ mid @ js ''</article>'' @ post"
    and "indexOf template (js ''<article>'') = Some (length pre)"
    and "indexOf (mid @ js ''</article>'' @ post) (js ''</article>'') = Some (length mid)"
  shows "regex_test articleRegex template"
    and "replace_regex articleRegex template repl =
           pre @ getSubstitution (js ''<article>'' @ mid @ js ''</article>'') pre post repl @ post"
proof -
  note a = assms(2,3) [unfolded assms(1)]
  show "regex_test articleRegex template"
    unfolding regex_test_def articleRegex_def assms(1)
    using regex_exec_region [OF article_open_nonempty a] by simp
  show "replace_regex articleRegex template repl =
           pre @ getSubstitution (js ''<article>'' @ mid @ js ''</article>'') pre post repl @ post"
    unfolding articleRegex_def assms(1)
    by (rule replace_regex_region [OF article_open_nonempty a])
qed

lemma replace_regex_no_match:
  "\<not> regex_test r s \<Longrightarrow> replace_regex r s repl = s"
  by (cases "regex_exec (match_at r) s") (simp_all add: regex_test_def replace_regex_def)

subsection \<open>The image patterns and the banner\<close>

lemma removeAllImages_eq: "removeAllImages s = remove_all (img_tag_match (\<lambda>b. True)) s"
proof -
  have "match_at imgRegex = img_tag_match (\<lambda>b. True)"
    by (rule ext) (rule match_at_imgRegex)
  then show ?thesis by (simp only: removeAllImages_def)
qed

lemma removeSentinelImages_eq:
  "removeSentinelImages s = remove_all (img_tag_match (\<lambda>b. includes_str b sentinel)) s"
proof -
  have "match_at sentinelImgRegex = img_tag_match (\<lambda>b. includes_str b sentinel)"
    by (rule ext) (rule match_at_sentinelImgRegex)
  then show ?thesis by (simp only: removeSentinelImages_def)
qed

lemma bannerHtml_shape:
  \<open>bannerHtml = 0x3C # js ''img src="banner.png" alt="Banner" style="width: 100%; height: auto; display: block; margin: 0 auto 30px;"'' @ [0x3E, 0x0A]\<close>
  by (simp add: bannerHtml_def js_def)

lemma banner_body:
  \<open>\<forall>x\<in>set (js ''img src="banner.png" alt="Banner" style="width: 100%; height: auto; display: block; margin: 0 auto 30px;"''). not_gt x\<close>
  \<open>0x3C \<notin> set (js ''img src="banner.png" alt="Banner" style="width: 100%; height: auto; display: block; margin: 0 auto 30px;"'')\<close>
  \<open>prefix (js ''img'') (js ''img src="banner.png" alt="Banner" style="width: 100%; height: auto; display: block; margin: 0 auto 30px;"'')\<close>
  by (simp_all add: js_def not_gt_def)

subsection \<open>The last occurrence\<close>

lemma lastIndexOf_Some:
  "lastIndexOf s t = Some i \<Longrightarrow> i \<le> length s \<and> prefix t (drop i s)"
proof (induction s arbitrary: i)
  case Nil
  then show ?case by (simp split: if_splits)
next
  case (Cons c cs)
  show ?case
  proof (cases "lastIndexOf cs t")
    case None
    with Cons.prems show ?thesis by (simp split: if_splits)
  next
    case (Some j)
    with Cons.prems have "i = Suc j" by simp
    with Cons.IH [OF Some] show ?thesis by simp
  qed
qed


lemma normalize_plain:
  "normalize (js ''<p>new</p>'') = bannerHtml @ js ''<p>new</p>''"
  by (simp add: normalize_def fixFootnotes_eq prependBanner_def removeAllImages_def
        removeSentinelImages_def sentinelImgRegex_def imgRegex_def match_at_def js_def
        bannerHtml_def endsWith_def trim_def white_space_def not_gt_def)

lemma placeholder_bytes:
  "Option.bind (data_url_payload placeholder_src) base64_decode =
     Some [0x47, 0x49, 0x46, 0x38, 0x39, 0x61, 1, 0, 1, 0, 0x80, 0, 0, 0, 0, 0, 0xFF, 0xFF, 0xFF,
           0x21, 0xF9, 4, 1, 0, 0, 0, 0, 0x2C, 0, 0, 0, 0, 1, 0, 1, 0, 0, 2, 1, 0x44, 0, 0x3B]"
  by (simp add: data_url_payload_def placeholder_src_def base64_digit_def)

subsection \<open>The footnote step keeps the banner and the images\<close>

lemma tags_flat_split:
  "tags_flat b (x @ y) = (tags_flat b x \<and> tags_flat (tag_state b x) y)"
  by (induction x arbitrary: b) auto

lemma tag_state_append: "tag_state b (x @ y) = tag_state (tag_state b x) y"
  by (induction x arbitrary: b) auto

lemma tag_state_no_lt: "0x3C \<notin> set v \<Longrightarrow> tag_state False v = False"
  by (induction v) auto

lemma tag_state_inside_closed:
  "tag_state True s = False \<Longrightarrow> dropWhile not_gt s \<noteq> []"
  by (induction s) (auto simp add: not_gt_def split: if_splits)

lemma tag_state_after_tag:
  "tags_flat True s \<Longrightarrow> dropWhile not_gt s = g # rest \<Longrightarrow> tag_state True s = tag_state False rest"
proof (induction s)
  case Nil
  then show ?case by simp
next
  case (Cons c cs)
  from Cons.prems(1) have c: "c \<noteq> 0x3C" by (auto split: if_splits)
  show ?case
  proof (cases "c = 0x3E")
    case True
    with Cons.prems show ?thesis by (simp add: not_gt_def)
  next
    case False
    then have ng: "not_gt c" by (simp add: not_gt_def)
    from False c Cons.prems(1) have "tags_flat True cs" by simp
    moreover from ng Cons.prems(2) have "dropWhile not_gt cs = g # rest" by simp
    ultimately have "tag_state True cs = tag_state False rest" by (rule Cons.IH)
    with c False show ?thesis by simp
  qed
qed

lemma trim_decompose: "\<exists>u v. s = u @ trim s @ v \<and> (\<forall>c\<in>set v. white_space c)"
proof -
  define s' where "s' = rev (dropWhile white_space (rev s))"
  define v where "v = rev (takeWhile white_space (rev s))"
  have "s = rev (takeWhile white_space (rev s) @ dropWhile white_space (rev s))"
    by (simp only: takeWhile_dropWhile_id rev_rev_ident)
  also have "\<dots> = s' @ v" unfolding s'_def v_def by (rule rev_append)
  finally have s: "s = s' @ v" .
  have "s' = takeWhile white_space s' @ trim s" by (simp add: trim_def s'_def)
  with s have "s = takeWhile white_space s' @ trim s @ v" by simp
  moreover have "\<forall>c\<in>set v. white_space c"
    by (auto simp add: v_def dest: set_takeWhileD)
  ultimately show ?thesis by blast
qed

lemma endsWith_decompose: "endsWith a t \<Longrightarrow> \<exists>w. a = w @ t"
proof -
  assume "endsWith a t"
  then obtain k where "rev a = rev t @ k" by (auto simp add: endsWith_def prefix_def)
  then have "rev (rev a) = rev (rev t @ k)" by (rule arg_cong)
  then have "a = rev k @ t" by simp
  then show ?thesis by blast
qed

lemma white_space_not_lt: "white_space c \<Longrightarrow> c \<noteq> 0x3C"
  by (auto simp add: white_space_def)

lemma tag_state_ol_end:
  assumes "endsWith (trim s) (js ''</ol>'')"
  shows "tag_state b s = False"
proof -
  from endsWith_decompose [OF assms] obtain w where w: "trim s = w @ js ''</ol>''" by blast
  from trim_decompose [of s] obtain u v where
    uv: "s = u @ trim s @ v" "\<forall>c\<in>set v. white_space c" by blast
  from uv(2) have "0x3C \<notin> set v" by (auto dest: white_space_not_lt)
  then have v: "tag_state False v = False" by (rule tag_state_no_lt)
  have "s = (u @ w) @ js ''</ol>'' @ v" using uv(1) w by simp
  then have "tag_state b s = tag_state (tag_state (tag_state b (u @ w)) (js ''</ol>'')) v"
    by (simp only: tag_state_append)
  also have "tag_state (tag_state b (u @ w)) (js ''</ol>'') = False"
    by (simp add: js_def)
  finally show ?thesis using v by simp
qed

lemma banner_tail: "0x3C \<notin> set (tl bannerHtml)" "\<not> prefix (js ''<ol>'') (bannerHtml @ r)"
  by (simp_all add: bannerHtml_def js_def)

lemma ol_after_banner:
  assumes "prefix (js ''<ol>'') (drop i (bannerHtml @ r))"
  shows "length bannerHtml \<le> i"
proof (rule ccontr)
  assume "\<not> length bannerHtml \<le> i"
  then have lt: "i < length bannerHtml" by simp
  show False
  proof (cases i)
    case 0
    with assms banner_tail(2) [of r] show ?thesis by simp
  next
    case (Suc j)
    with lt have j: "j < length (tl bannerHtml)" by simp
    have "drop i (bannerHtml @ r) = drop j (tl bannerHtml) @ r"
      using lt Suc by (simp add: drop_Suc)
    also have "drop j (tl bannerHtml) = tl bannerHtml ! j # drop (Suc j) (tl bannerHtml)"
      using j by (rule Cons_nth_drop_Suc [symmetric])
    finally have "prefix (js ''<ol>'') ((tl bannerHtml ! j # drop (Suc j) (tl bannerHtml)) @ r)"
      using assms by simp
    then have "tl bannerHtml ! j = 0x3C" by (simp add: js_def)
    with j banner_tail(1) show ?thesis by (metis nth_mem)
  qed
qed

lemma wrapper_counts:
  "tags_flat False citationsOpen" "tag_state False citationsOpen = False"
  by (simp_all add: citationsOpen_def citationsClose_def js_def)

lemma fixFootnotes_banner:
  "prefix bannerHtml (fixFootnotes (bannerHtml @ r))"
proof (cases "fixFootnotes (bannerHtml @ r) = bannerHtml @ r")
  case True
  then show ?thesis by simp
next
  case False
  then obtain i where i: "lastIndexOf (bannerHtml @ r) (js ''<ol>'') = Some i"
    and w: "fixFootnotes (bannerHtml @ r) =
        take i (bannerHtml @ r) @ citationsOpen @ drop i (bannerHtml @ r) @ citationsClose"
    unfolding fixFootnotes_eq [of "bannerHtml @ r"] by (auto split: if_splits option.splits)
  from lastIndexOf_Some [OF i] have "prefix (js ''<ol>'') (drop i (bannerHtml @ r))" by simp
  from ol_after_banner [OF this] show ?thesis unfolding w by simp
qed

subsection \<open>Renderings of the converter\<close>

lemma escape_chars:
  "0x3C \<notin> set (escapeHtmlText v)" "0x3E \<notin> set (escapeHtmlText v)"
  "0x3C \<notin> set (escapeHtmlAttribute v)" "0x3E \<notin> set (escapeHtmlAttribute v)"
  by (auto simp add: escapeHtmlText_def escapeHtmlAttribute_def js_def split: if_splits)

lemma name_char_plain: "name_char c \<Longrightarrow> c \<noteq> 0x3C \<and> c \<noteq> 0x3E \<and> c \<noteq> 0x20 \<and> c \<noteq> 0x2F
    \<and> c \<noteq> 0x49 \<and> c \<noteq> 0x4D \<and> c \<noteq> 0x47 \<and> c \<noteq> 0x09 \<and> c \<noteq> 0x0A \<and> c \<noteq> 0x0C \<and> c \<noteq> 0x0D"
  by (auto simp add: name_char_def)

lemma valid_name_chars: "valid_name n \<Longrightarrow> 0x3C \<notin> set n \<and> 0x3E \<notin> set n"
  by (auto simp add: valid_name_def list_all_iff dest: name_char_plain)

lemma attribute_chars:
  "list_all (\<lambda>(key, v). valid_name key) attributes \<Longrightarrow>
     0x3C \<notin> set (generateAttributeString attributes) \<and> 0x3E \<notin> set (generateAttributeString attributes)"
  by (induction attributes)
     (auto simp add: generateAttributeString_def js_def escape_chars dest: valid_name_chars)

lemma attribute_start:
  "generateAttributeString attributes = [] \<or> hd (generateAttributeString attributes) = 0x20"
  by (cases attributes) (auto simp add: generateAttributeString_def)

lemma remove_all_no_lt:
  "0x3C \<notin> set xs \<Longrightarrow>
     remove_all (img_tag_match Q) (xs @ rest) = xs @ remove_all (img_tag_match Q) rest"
  by (induction xs) (simp_all add: img_tag_match_lt)

lemma remove_all_tag:
  assumes "0x3C \<notin> set body" and "0x3E \<notin> set body"
  shows "remove_all (img_tag_match Q) (0x3C # body @ 0x3E # rest) =
           (if prefix (js ''img'') body \<and> Q (drop 3 body) then [] else 0x3C # body @ [0x3E])
           @ remove_all (img_tag_match Q) rest"
proof -
  from assms(2) have ng: "\<forall>x\<in>set body. not_gt x" by (auto simp add: not_gt_def)
  have hit: "(img_tag_match Q (0x3C # body @ 0x3E # rest) \<noteq> None)
      = (prefix (js ''img'') body \<and> Q (drop 3 body))"
    using img_tag_match_tag [OF ng, of "0x3E # rest" Q] by simp
  show ?thesis
  proof (cases "img_tag_match Q (0x3C # body @ 0x3E # rest)")
    case None
    with hit have no: "\<not> (prefix (js ''img'') body \<and> Q (drop 3 body))" by simp
    have "remove_all (img_tag_match Q) (0x3C # body @ 0x3E # rest)
        = 0x3C # remove_all (img_tag_match Q) (body @ 0x3E # rest)"
      by (simp add: None)
    also have "remove_all (img_tag_match Q) (body @ 0x3E # rest)
        = body @ remove_all (img_tag_match Q) (0x3E # rest)"
      by (rule remove_all_no_lt [OF assms(1)])
    also have "remove_all (img_tag_match Q) (0x3E # rest) = 0x3E # remove_all (img_tag_match Q) rest"
      by (simp add: img_tag_match_lt)
    finally show ?thesis using no by simp
  next
    case (Some n)
    with hit have yes: "prefix (js ''img'') body \<and> Q (drop 3 body)" by simp
    from img_tag_match_Some [OF Some] obtain g rest0 where
      r: "dropWhile not_gt (body @ 0x3E # rest) = g # rest0"
        "drop n (0x3C # body @ 0x3E # rest) = rest0" "0 < n" by blast
    have "dropWhile not_gt (body @ 0x3E # rest) = 0x3E # rest"
      using ng by (simp add: dropWhile_append2 not_gt_def)
    with r(1) have "rest0 = rest" by simp
    with r(2,3) have "remove_all (img_tag_match Q) (0x3C # body @ 0x3E # rest)
        = remove_all (img_tag_match Q) rest"
      by (simp add: Some)
    with yes show ?thesis by simp
  qed
qed

lemma no_img_prefix:
  assumes "\<not> prefix (js ''img'') name" and "u = [] \<or> hd u = 0x20"
  shows "\<not> prefix (js ''img'') (name @ u)"
proof
  assume "prefix (js ''img'') (name @ u)"
  with assms(1) obtain us where us: "js ''img'' = name @ us" "prefix us u"
    by (auto simp add: prefix_append)
  with assms(1) have "us \<noteq> []" by auto
  then obtain a as where a: "us = a # as" by (cases us) auto
  with us(1) have "a \<in> set (js ''img'')" by (metis in_set_conv_decomp)
  then have "a \<noteq> 0x20" by (auto simp add: js_def)
  moreover from us(2) a assms(2) have "a = 0x20" by (cases u) auto
  ultimately show False by simp
qed

lemma js_void_end: "js '' />'' = [0x20, 0x2F] @ [0x3E]" "js '' /'' = [0x20, 0x2F]"
  "js ''</'' = [0x3C, 0x2F]" "js ''>'' = [0x3E]"
  by (simp_all add: js_def)

lemma strip_render_nodes:
  assumes "\<And>c rest. c \<in> set cs \<Longrightarrow> well_formed c \<Longrightarrow>
      remove_all (img_tag_match Q) (render c @ rest)
        = render_nodes (strip_images Q c) @ remove_all (img_tag_match Q) rest"
    and "list_all well_formed cs"
  shows "remove_all (img_tag_match Q) (render_nodes cs @ rest)
        = render_nodes (concat (map (strip_images Q) cs)) @ remove_all (img_tag_match Q) rest"
  using assms
proof (induction cs)
  case Nil
  then show ?case by (simp add: render_nodes_def)
next
  case (Cons c cs)
  from Cons.prems(2) have wc: "well_formed c" and wcs: "list_all well_formed cs" by simp_all
  have "remove_all (img_tag_match Q) (render_nodes (c # cs) @ rest)
      = remove_all (img_tag_match Q) (render c @ (render_nodes cs @ rest))"
    by (simp add: render_nodes_def)
  also have "\<dots> = render_nodes (strip_images Q c)
      @ remove_all (img_tag_match Q) (render_nodes cs @ rest)"
    by (rule Cons.prems(1)) (simp_all add: wc)
  also have "remove_all (img_tag_match Q) (render_nodes cs @ rest)
      = render_nodes (concat (map (strip_images Q) cs)) @ remove_all (img_tag_match Q) rest"
    by (rule Cons.IH) (simp_all add: Cons.prems(1) wcs)
  finally show ?case by (simp add: render_nodes_def)
qed

lemma strip_render:
  "well_formed n \<Longrightarrow>
     remove_all (img_tag_match Q) (render n @ rest)
       = render_nodes (strip_images Q n) @ remove_all (img_tag_match Q) rest"
proof (induction n arbitrary: rest)
  case (Text v)
  then show ?case
    by (simp add: remove_all_no_lt escape_chars render_nodes_def)
next
  case (Void name attributes)
  define a where "a = generateAttributeString attributes"
  from Void have vn: "valid_name name" and va: "list_all (\<lambda>(key, v). valid_name key) attributes"
    and img: "name = js ''img'' \<or> \<not> prefix (js ''img'') name" by simp_all
  have chars: "0x3C \<notin> set (name @ a @ [0x20, 0x2F])" "0x3E \<notin> set (name @ a @ [0x20, 0x2F])"
    using valid_name_chars [OF vn] attribute_chars [OF va] by (simp_all add: a_def)
  have r: "render (Void name attributes) @ rest = 0x3C # (name @ a @ [0x20, 0x2F]) @ 0x3E # rest"
    by (simp add: a_def js_void_end)
  have hit: "(prefix (js ''img'') (name @ a @ [0x20, 0x2F]) \<and> Q (drop 3 (name @ a @ [0x20, 0x2F])))
      = (name = js ''img'' \<and> Q (a @ js '' /''))"
  proof (cases "name = js ''img''")
    case True
    then show ?thesis by (simp add: js_def)
  next
    case False
    with img have "\<not> prefix (js ''img'') name" by simp
    from no_img_prefix [OF this, of "a @ [0x20, 0x2F]"] attribute_start [of attributes] False
    show ?thesis by (cases a) (auto simp add: a_def)
  qed
  show ?case
    unfolding r remove_all_tag [OF chars] hit
    by (simp add: a_def render_nodes_def js_void_end)
next
  case (Element name attributes children)
  define a where "a = generateAttributeString attributes"
  from Element.prems have vn: "valid_name name"
    and va: "list_all (\<lambda>(key, v). valid_name key) attributes"
    and img: "\<not> prefix (js ''img'') name" and wc: "list_all well_formed children" by simp_all
  have chars: "0x3C \<notin> set (name @ a)" "0x3E \<notin> set (name @ a)"
    "0x3C \<notin> set (0x2F # name)" "0x3E \<notin> set (0x2F # name)"
    using valid_name_chars [OF vn] attribute_chars [OF va] by (simp_all add: a_def)
  have r: "render (Element name attributes children) @ rest
      = 0x3C # (name @ a) @ 0x3E # (render_nodes children @ (0x3C # (0x2F # name) @ 0x3E # rest))"
    by (simp add: a_def js_void_end render_nodes_def)
  have open_tag: "\<not> (prefix (js ''img'') (name @ a) \<and> Q (drop 3 (name @ a)))"
    using no_img_prefix [OF img, of a] attribute_start [of attributes] by (simp add: a_def)
  have close_tag: "\<not> (prefix (js ''img'') (0x2F # name) \<and> Q (drop 3 (0x2F # name)))"
    by (simp add: js_def)
  have kids: "remove_all (img_tag_match Q) (render_nodes children @ rest')
      = render_nodes (concat (map (strip_images Q) children)) @ remove_all (img_tag_match Q) rest'"
    for rest'
    by (rule strip_render_nodes [OF Element.IH wc])
  show ?case
    unfolding r remove_all_tag [OF chars(1,2)] kids remove_all_tag [OF chars(3,4)]
    using open_tag close_tag
    by (simp add: a_def render_nodes_def js_void_end)
qed

lemma strip_images_well_formed:
  "well_formed n \<Longrightarrow> list_all well_formed (strip_images Q n)"
proof (induction n)
  case (Element name attributes children)
  then have "list_all well_formed (concat (map (strip_images Q) children))"
    by (induction children) simp_all
  with Element.prems show ?case by simp
qed simp_all

lemma strip_images_nodes_well_formed:
  "list_all well_formed ns \<Longrightarrow> list_all well_formed (concat (map (strip_images Q) ns))"
  by (induction ns) (simp_all add: strip_images_well_formed)

lemma strip_all_after:
  "concat (map (strip_images (\<lambda>b. True)) (strip_images Q n)) = strip_images (\<lambda>b. True) n"
proof (induction n)
  case (Element name attributes children)
  then have "concat (map (strip_images (\<lambda>b. True)) (concat (map (strip_images Q) children)))
      = concat (map (strip_images (\<lambda>b. True)) children)"
    by (induction children) simp_all
  then show ?case by simp
qed simp_all

lemma without_images_after:
  "without_images (concat (map (strip_images Q) ns)) = without_images ns"
  by (induction ns) (simp_all add: without_images_def strip_all_after)

lemma image_nodes_stripped: "sum_list (map image_nodes (strip_images (\<lambda>b. True) n)) = 0"
proof (induction n)
  case (Element name attributes children)
  then have "sum_list (map image_nodes (concat (map (strip_images (\<lambda>b. True)) children))) = 0"
    by (induction children) auto
  then show ?case by simp
qed simp_all

lemma image_nodes_without_images: "sum_list (map image_nodes (without_images ns)) = 0"
  by (induction ns) (simp_all add: without_images_def image_nodes_stripped)

text \<open>The two removals on the rendering of a tree.\<close>

lemma removals_on_rendering:
  assumes "list_all well_formed ns"
  shows "removeAllImages (removeSentinelImages (render_nodes ns)) = render_nodes (without_images ns)"
proof -
  have nodes: "remove_all (img_tag_match Q) (render_nodes cs)
      = render_nodes (concat (map (strip_images Q) cs))" if "list_all well_formed cs" for Q cs
    using strip_render_nodes [OF strip_render that, of Q "[]"] by simp
  have "removeSentinelImages (render_nodes ns)
      = render_nodes (concat (map (strip_images (\<lambda>b. includes_str b sentinel)) ns))"
    unfolding removeSentinelImages_eq by (rule nodes [OF assms])
  moreover have "removeAllImages (render_nodes (concat (map (strip_images (\<lambda>b. includes_str b sentinel)) ns)))
      = render_nodes (without_images (concat (map (strip_images (\<lambda>b. includes_str b sentinel)) ns)))"
    unfolding removeAllImages_eq without_images_def
    by (rule nodes [OF strip_images_nodes_well_formed [OF assms]])
  ultimately show ?thesis by (simp add: without_images_after)
qed

subsection \<open>Counting over tags\<close>

lemma count_no_lt:
  assumes "\<And>c cs. c \<noteq> 0x3C \<Longrightarrow> m (c # cs) = None"
  shows "0x3C \<notin> set xs \<Longrightarrow> count_matches m (xs @ ys) = count_matches m ys"
  by (induction xs) (simp_all add: assms)

lemma count_tag:
  assumes P1: "\<And>c cs. c \<noteq> 0x3C \<Longrightarrow> m (c # cs) = None"
    and P2: "\<And>body rest rest'. 0x3E \<notin> set body \<Longrightarrow>
        (m (0x3C # body @ 0x3E # rest) = None) = (m (0x3C # body @ 0x3E # rest') = None)"
    and "0x3C \<notin> set body" and "0x3E \<notin> set body"
  shows "count_matches m (0x3C # body @ 0x3E # rest)
       = (if m (0x3C # body @ [0x3E]) = None then 0 else 1) + count_matches m rest"
proof -
  have "count_matches m (body @ 0x3E # rest) = count_matches m (0x3E # rest)"
    by (rule count_no_lt [where m = m, OF P1 assms(3)])
  also have "\<dots> = count_matches m rest" by (simp add: P1)
  finally have "count_matches m (0x3C # body @ 0x3E # rest)
      = (if m (0x3C # body @ 0x3E # rest) = None then 0 else 1) + count_matches m rest"
    by simp
  with P2 [OF assms(4), of rest "[]"] show ?thesis by simp
qed

lemma img_start_tag_other: "c \<noteq> 0x3C \<Longrightarrow> img_start_tag (c # cs) = None"
  by (simp add: img_start_tag_def split: list.splits)

lemma img_start_tag_in_tag:
  assumes "0x3E \<notin> set body"
  shows "img_start_tag (0x3C # body @ 0x3E # rest) = img_start_tag (0x3C # body @ [0x3E])"
proof (cases body)
  case Nil
  then show ?thesis by (simp add: img_start_tag_def split: list.splits)
next
  case b1: (Cons a b1)
  show ?thesis
  proof (cases b1)
    case Nil
    with b1 show ?thesis by (simp add: img_start_tag_def split: list.splits)
  next
    case b2: (Cons b b2)
    show ?thesis
    proof (cases b2)
      case Nil
      with b1 b2 show ?thesis by (simp add: img_start_tag_def split: list.splits)
    next
      case b3: (Cons c b3)
      show ?thesis
      proof (cases b3)
        case Nil
        with b1 b2 b3 show ?thesis by (simp add: img_start_tag_def)
      next
        case (Cons d b4)
        with b1 b2 b3 show ?thesis by (simp add: img_start_tag_def)
      qed
    qed
  qed
qed

lemma img_start_tag_name:
  assumes "valid_name name" and "u = [] \<or> hd u = 0x20"
  shows "(img_start_tag (0x3C # (name @ u) @ [0x3E]) = None) = (name \<noteq> js ''img'')"
proof -
  from assms(2) obtain t ts where t: "u @ [0x3E] = t # ts" "t = 0x20 \<or> t = 0x3E"
    by (cases u) auto
  have s: "0x3C # (name @ u) @ [0x3E] = 0x3C # name @ t # ts" using t(1) by simp
  from assms(1) have ne: "name \<noteq> []" and nc: "\<forall>c\<in>set name. name_char c"
    by (simp_all add: valid_name_def list_all_iff)
  show ?thesis
  proof (cases name)
    case Nil
    with ne show ?thesis by simp
  next
    case n1: (Cons a n1)
    show ?thesis
    proof (cases n1)
      case Nil
      with n1 t(2) show ?thesis
        unfolding s by (auto simp add: img_start_tag_def js_def split: list.splits)
    next
      case n2: (Cons b n2)
      show ?thesis
      proof (cases n2)
        case Nil
        with n1 n2 t(2) show ?thesis
          unfolding s by (auto simp add: img_start_tag_def js_def split: list.splits)
      next
        case n3: (Cons c n3)
        from nc n1 n2 n3 have abc: "name_char a" "name_char b" "name_char c" by simp_all
        show ?thesis
        proof (cases n3)
          case Nil
          with n1 n2 n3 t(2) name_char_plain [OF abc(1)] name_char_plain [OF abc(2)]
            name_char_plain [OF abc(3)] show ?thesis
            unfolding s by (auto simp add: img_start_tag_def js_def)
        next
          case (Cons d n4)
          with nc n1 n2 n3 have "name_char d" by simp
          from name_char_plain [OF this] Cons n1 n2 n3 show ?thesis
            unfolding s by (auto simp add: img_start_tag_def js_def)
        qed
      qed
    qed
  qed
qed

lemma img_start_tag_close: "img_start_tag (0x3C # (0x2F # name) @ [0x3E]) = None"
  by (simp add: img_start_tag_def split: list.splits)

lemma tag_state_plain:
  "0x3C \<notin> set xs \<Longrightarrow> 0x3E \<notin> set xs \<Longrightarrow> tag_state b (xs @ ys) = tag_state b ys"
  by (induction xs) auto

lemma tag_piece:
  assumes "0x3C \<notin> set body" and "0x3E \<notin> set body"
  shows "tags_flat False (0x3C # body @ 0x3E # rest) = tags_flat False rest"
    and "tag_state False (0x3C # body @ 0x3E # rest) = tag_state False rest"
  using tags_flat_append [OF assms, of True "0x3E # rest"]
    tag_state_plain [OF assms, of True "0x3E # rest"] by simp_all

lemma count_closed:
  assumes P1: "\<And>c cs. c \<noteq> 0x3C \<Longrightarrow> m (c # cs) = None"
    and P2: "\<And>body rest rest'. 0x3E \<notin> set body \<Longrightarrow>
        (m (0x3C # body @ 0x3E # rest) = None) = (m (0x3C # body @ 0x3E # rest') = None)"
  shows "tags_flat False x \<Longrightarrow> tag_state False x = False \<Longrightarrow>
     count_matches m (x @ z) = count_matches m x + count_matches m z"
proof (induction x rule: length_induct)
  case (1 x)
  note IH = "1.IH" [rule_format]
  show ?case
  proof (cases x)
    case Nil
    then show ?thesis by simp
  next
    case (Cons c cs)
    show ?thesis
    proof (cases "c = 0x3C")
      case False
      with "1.prems" have "tags_flat False cs" "tag_state False cs = False"
        unfolding Cons by (simp_all split: if_splits)
      from IH [OF _ this] False show ?thesis
        unfolding Cons by (simp add: P1)
    next
      case True
      with "1.prems" have inside: "tags_flat True cs" and st: "tag_state True cs = False"
        unfolding Cons by simp_all
      note ins = tags_flat_inside [OF inside]
      from ins have ins1: "0x3C \<notin> set (takeWhile not_gt cs)" by blast
      define body where "body = takeWhile not_gt cs"
      from tag_state_inside_closed [OF st] obtain g rest where
        dw: "dropWhile not_gt cs = g # rest" by (cases "dropWhile not_gt cs") auto
      with ins have g: "g = 0x3E" and fr: "tags_flat False rest" by blast+
      from tag_state_after_tag [OF inside dw] st have sr: "tag_state False rest = False" by simp
      have cs: "cs = body @ 0x3E # rest"
        unfolding body_def g [symmetric] dw [symmetric] by simp
      have body: "0x3C \<notin> set body" "0x3E \<notin> set body"
        using ins1 by (auto simp add: body_def not_gt_def dest: set_takeWhileD)
      have "length rest < length x" unfolding Cons cs by simp
      note IHr = IH [OF this fr sr]
      have "count_matches m (0x3C # body @ 0x3E # (rest @ z))
          = (if m (0x3C # body @ [0x3E]) = None then 0 else 1) + count_matches m (rest @ z)"
        by (rule count_tag [where m = m, OF P1 P2 body])
      moreover have "count_matches m (0x3C # body @ 0x3E # rest)
          = (if m (0x3C # body @ [0x3E]) = None then 0 else 1) + count_matches m rest"
        by (rule count_tag [where m = m, OF P1 P2 body])
      ultimately show ?thesis
        unfolding Cons True cs using IHr by simp
    qed
  qed
qed

lemma fixFootnotes_keeps_count:
  assumes P1: "\<And>c cs. c \<noteq> 0x3C \<Longrightarrow> m (c # cs) = None"
    and P2: "\<And>body rest rest'. 0x3E \<notin> set body \<Longrightarrow>
        (m (0x3C # body @ 0x3E # rest) = None) = (m (0x3C # body @ 0x3E # rest') = None)"
    and wrapper: "count_matches m citationsOpen = 0" "count_matches m citationsClose = 0"
    and flat: "tags_flat False s"
  shows "count_matches m (fixFootnotes s) = count_matches m s"
proof (cases "fixFootnotes s = s")
  case True
  then show ?thesis by simp
next
  case False
  then obtain i where i: "lastIndexOf s (js ''<ol>'') = Some i"
    and e: "endsWith (trim s) (js ''</ol>'')"
    and w: "fixFootnotes s = take i s @ citationsOpen @ drop i s @ citationsClose"
    unfolding fixFootnotes_eq [of s] by (auto split: if_splits option.splits)
  define x where "x = take i s"
  define y where "y = drop i s"
  have s: "s = x @ y" by (simp add: x_def y_def)
  from lastIndexOf_Some [OF i] obtain y' where y: "y = 0x3C # y'"
    unfolding y_def by (cases "drop i s") (auto simp add: js_def)
  from flat have fx: "tags_flat False x" and fy: "tags_flat (tag_state False x) y"
    unfolding s tags_flat_split by simp_all
  from fy have sx: "tag_state False x = False" unfolding y by simp
  with fy have fy': "tags_flat False y" by simp
  from tag_state_ol_end [OF e, of False] have sy: "tag_state False y = False"
    unfolding s tag_state_append sx .
  have closed: "count_matches m (x @ z) = count_matches m x + count_matches m z"
    if "tags_flat False x" and "tag_state False x = False" for x z
    apply (rule count_closed [where m = m])
       apply (erule P1)
      apply (erule P2)
     apply (fact that)+
    done
  have "count_matches m (x @ citationsOpen @ y @ citationsClose)
      = count_matches m x + count_matches m y"
    by (simp add: closed [OF fx sx] closed [OF wrapper_counts(1,2)] closed [OF fy' sy] wrapper)
  also have "\<dots> = count_matches m (x @ y)"
    by (simp add: closed [OF fx sx])
  finally have "count_matches m (x @ citationsOpen @ y @ citationsClose) = count_matches m s"
    unfolding s .
  moreover have "fixFootnotes s = x @ citationsOpen @ y @ citationsClose"
    unfolding w x_def y_def ..
  ultimately show ?thesis by simp
qed

subsection \<open>Image elements of a rendering\<close>

lemma image_tag_count:
  assumes "0x3C \<notin> set body" and "0x3E \<notin> set body"
  shows "count_matches img_start_tag (0x3C # body @ 0x3E # rest)
       = (if img_start_tag (0x3C # body @ [0x3E]) = None then 0 else 1)
         + count_matches img_start_tag rest"
proof (rule count_tag)
  show "img_start_tag (c # cs) = None" if "c \<noteq> 0x3C" for c cs
    using that by (rule img_start_tag_other)
  show "(img_start_tag (0x3C # b @ 0x3E # r) = None) = (img_start_tag (0x3C # b @ 0x3E # r') = None)"
    if "0x3E \<notin> set b" for b r r'
    unfolding img_start_tag_in_tag [OF that, of r] img_start_tag_in_tag [OF that, of r'] ..
qed (fact assms)+

lemma image_plain_count:
  "0x3C \<notin> set xs \<Longrightarrow>
     count_matches img_start_tag (xs @ ys) = count_matches img_start_tag ys"
  by (rule count_no_lt) (erule img_start_tag_other)

lemma image_elements_nodes:
  assumes "\<And>c rest. c \<in> set cs \<Longrightarrow> well_formed c \<Longrightarrow>
      count_matches img_start_tag (render c @ rest) = image_nodes c + count_matches img_start_tag rest"
    and "list_all well_formed cs"
  shows "count_matches img_start_tag (render_nodes cs @ rest)
       = sum_list (map image_nodes cs) + count_matches img_start_tag rest"
  using assms by (induction cs) (simp_all add: render_nodes_def)

lemma flat_nodes:
  assumes "\<And>c rest. c \<in> set cs \<Longrightarrow> well_formed c \<Longrightarrow>
      tags_flat False (render c @ rest) = tags_flat False rest
      \<and> tag_state False (render c @ rest) = tag_state False rest"
    and "list_all well_formed cs"
  shows "tags_flat False (render_nodes cs @ rest) = tags_flat False rest
      \<and> tag_state False (render_nodes cs @ rest) = tag_state False rest"
  using assms by (induction cs) (simp_all add: render_nodes_def)

lemma image_elements_node:
  "well_formed n \<Longrightarrow>
     count_matches img_start_tag (render n @ rest) = image_nodes n + count_matches img_start_tag rest"
proof (induction n arbitrary: rest)
  case (Text v)
  show ?case
    by (simp add: image_plain_count escape_chars)
next
  case (Void name attributes)
  define a where "a = generateAttributeString attributes"
  from Void have vn: "valid_name name" and va: "list_all (\<lambda>(key, v). valid_name key) attributes"
    by simp_all
  have chars: "0x3C \<notin> set (name @ a @ [0x20, 0x2F])" "0x3E \<notin> set (name @ a @ [0x20, 0x2F])"
    using valid_name_chars [OF vn] attribute_chars [OF va] by (simp_all add: a_def)
  have r: "render (Void name attributes) @ rest = 0x3C # (name @ a @ [0x20, 0x2F]) @ 0x3E # rest"
    by (simp add: a_def js_void_end)
  have u: "a @ [0x20, 0x2F] = [] \<or> hd (a @ [0x20, 0x2F]) = 0x20"
    using attribute_start [of attributes] by (cases a) (auto simp add: a_def)
  have hit: "(img_start_tag (0x3C # (name @ a @ [0x20, 0x2F]) @ [0x3E]) = None) = (name \<noteq> js ''img'')"
    using img_start_tag_name [OF vn u] by simp
  show ?case
    unfolding r image_tag_count [OF chars] hit by simp
next
  case (Element name attributes children)
  define a where "a = generateAttributeString attributes"
  from Element.prems have vn: "valid_name name"
    and va: "list_all (\<lambda>(key, v). valid_name key) attributes"
    and img: "\<not> prefix (js ''img'') name" and wc: "list_all well_formed children" by simp_all
  have chars: "0x3C \<notin> set (name @ a)" "0x3E \<notin> set (name @ a)"
    "0x3C \<notin> set (0x2F # name)" "0x3E \<notin> set (0x2F # name)"
    using valid_name_chars [OF vn] attribute_chars [OF va] by (simp_all add: a_def)
  have r: "render (Element name attributes children) @ rest
      = 0x3C # (name @ a) @ 0x3E # (render_nodes children @ (0x3C # (0x2F # name) @ 0x3E # rest))"
    by (simp add: a_def js_void_end render_nodes_def)
  from img have "name \<noteq> js ''img''" by auto
  then have open_tag: "img_start_tag (0x3C # (name @ a) @ [0x3E]) = None"
    using img_start_tag_name [OF vn attribute_start [of attributes]] by (simp add: a_def)
  note tag = image_tag_count
  have kids: "count_matches img_start_tag (render_nodes children @ rest')
      = sum_list (map image_nodes children) + count_matches img_start_tag rest'" for rest'
    by (rule image_elements_nodes [OF Element.IH wc])
  show ?case
    unfolding r tag [OF chars(1,2)] kids tag [OF chars(3,4)] open_tag img_start_tag_close
    by simp
qed

lemma flat_node:
  "well_formed n \<Longrightarrow>
     tags_flat False (render n @ rest) = tags_flat False rest
     \<and> tag_state False (render n @ rest) = tag_state False rest"
proof (induction n arbitrary: rest)
  case (Text v)
  show ?case
    by (simp add: tags_flat_append tag_state_plain escape_chars)
next
  case (Void name attributes)
  define a where "a = generateAttributeString attributes"
  from Void have vn: "valid_name name" and va: "list_all (\<lambda>(key, v). valid_name key) attributes"
    by simp_all
  have chars: "0x3C \<notin> set (name @ a @ [0x20, 0x2F])" "0x3E \<notin> set (name @ a @ [0x20, 0x2F])"
    using valid_name_chars [OF vn] attribute_chars [OF va] by (simp_all add: a_def)
  have r: "render (Void name attributes) @ rest = 0x3C # (name @ a @ [0x20, 0x2F]) @ 0x3E # rest"
    by (simp add: a_def js_void_end)
  show ?case unfolding r tag_piece [OF chars] by simp
next
  case (Element name attributes children)
  define a where "a = generateAttributeString attributes"
  from Element.prems have vn: "valid_name name"
    and va: "list_all (\<lambda>(key, v). valid_name key) attributes"
    and wc: "list_all well_formed children" by simp_all
  have chars: "0x3C \<notin> set (name @ a)" "0x3E \<notin> set (name @ a)"
    "0x3C \<notin> set (0x2F # name)" "0x3E \<notin> set (0x2F # name)"
    using valid_name_chars [OF vn] attribute_chars [OF va] by (simp_all add: a_def)
  have r: "render (Element name attributes children) @ rest
      = 0x3C # (name @ a) @ 0x3E # (render_nodes children @ (0x3C # (0x2F # name) @ 0x3E # rest))"
    by (simp add: a_def js_void_end render_nodes_def)
  have kids: "tags_flat False (render_nodes children @ rest') = tags_flat False rest'
      \<and> tag_state False (render_nodes children @ rest') = tag_state False rest'" for rest'
    by (rule flat_nodes [OF Element.IH wc])
  show ?case
    unfolding r tag_piece [OF chars(1,2)] using kids tag_piece [OF chars(3,4), of rest] by simp
qed

lemma image_wrapper_counts:
  "count_matches img_start_tag citationsOpen = 0"
  "count_matches img_start_tag citationsClose = 0"
  by (simp_all add: citationsOpen_def citationsClose_def js_def img_start_tag_def)

lemma image_elements_fixFootnotes:
  assumes "tags_flat False s"
  shows "image_elements (fixFootnotes s) = image_elements s"
  unfolding image_elements_def
proof (rule fixFootnotes_keeps_count)
  show "img_start_tag (c # cs) = None" if "c \<noteq> 0x3C" for c cs
    using that by (rule img_start_tag_other)
  show "(img_start_tag (0x3C # b @ 0x3E # r) = None) = (img_start_tag (0x3C # b @ 0x3E # r') = None)"
    if "0x3E \<notin> set b" for b r r'
    unfolding img_start_tag_in_tag [OF that, of r] img_start_tag_in_tag [OF that, of r'] ..
qed (fact image_wrapper_counts assms)+

lemma banner_gt:
  \<open>0x3E \<notin> set (js ''img src="banner.png" alt="Banner" style="width: 100%; height: auto; display: block; margin: 0 auto 30px;"'')\<close>
  \<open>img_start_tag (0x3C # js ''img src="banner.png" alt="Banner" style="width: 100%; height: auto; display: block; margin: 0 auto 30px;"'' @ [0x3E]) = Some 4\<close>
  by (simp_all add: js_def img_start_tag_def)

lemma image_elements_banner: "image_elements (bannerHtml @ r) = Suc (image_elements r)"
proof -
  define body where \<open>body = js ''img src="banner.png" alt="Banner" style="width: 100%; height: auto; display: block; margin: 0 auto 30px;"''\<close>
  note b = banner_body [folded body_def] and g = banner_gt [folded body_def]
  have shape: "bannerHtml @ r = 0x3C # body @ 0x3E # (0x0A # r)"
    by (simp add: bannerHtml_shape body_def)
  show ?thesis
    unfolding image_elements_def shape image_tag_count [OF b(2) g(1)] g(2)
    by (simp add: img_start_tag_other)
qed

lemma banner_flat: "tags_flat False (bannerHtml @ r) = tags_flat False r"
proof -
  define body where \<open>body = js ''img src="banner.png" alt="Banner" style="width: 100%; height: auto; display: block; margin: 0 auto 30px;"''\<close>
  note b = banner_body [folded body_def] and g = banner_gt [folded body_def]
  have shape: "bannerHtml @ r = 0x3C # body @ 0x3E # (0x0A # r)"
    by (simp add: bannerHtml_shape body_def)
  show ?thesis unfolding shape tag_piece(1) [OF b(2) g(1)] by simp
qed

lemma rendering_flat: "list_all well_formed ns \<Longrightarrow> tags_flat False (render_nodes ns)"
  using flat_nodes [OF flat_node, of ns "[]"] by simp

lemma image_elements_rendering:
  "list_all well_formed ns \<Longrightarrow> image_elements (render_nodes ns) = sum_list (map image_nodes ns)"
  using image_elements_nodes [OF image_elements_node, of ns "[]"] by (simp add: image_elements_def)

lemma without_images_well_formed:
  "list_all well_formed ns \<Longrightarrow> list_all well_formed (without_images ns)"
  unfolding without_images_def by (rule strip_images_nodes_well_formed)

subsection \<open>Further facts on the last occurrence, the cut and a footnoted fragment\<close>


lemma replace_regex_cut_inside:
  assumes "regex_exec (match_at r) (pre @ x @ post) = Some (i, n)"
    and "length pre \<le> i" and "i + n \<le> length pre + length x"
  shows "replace_regex r (pre @ x @ post) [] =
           pre @ (take (i - length pre) x @ drop (i + n - length pre) x) @ post"
  using assms by (simp add: replace_regex_def)

lemma normalize_footnoted:
  \<open>normalize (js ''<p>T</p><ol><li id="footnote-1">x</li></ol>'')
     = bannerHtml @ js ''<p>T</p><div class="citations">\<newline><h2>References</h2>\<newline><ol><li id="footnote-1">x</li></ol>\<newline></div>''\<close>
  by (simp add: normalize_def fixFootnotes_eq prependBanner_def removeAllImages_def
      removeSentinelImages_def sentinelImgRegex_def imgRegex_def match_at_def js_def
      bannerHtml_def endsWith_def trim_def white_space_def has_footnote_marker_def
      includes_str_def citationsOpen_def citationsClose_def not_gt_def)

section \<open>The image handler\<close>

text \<open>
  C9. For every embedded image that can be read, the image handler returns the same
  two attributes whatever the image holds: as source a fixed data URL, and the class
  \<^verbatim>\<open>remove-me\<close>. The URL holds a GIF of one pixel by one pixel whose graphic control
  extension turns transparency on.
\<close>

theorem image_handler_placeholder:
  assumes "read_base64 img = Inr imageBuffer"
  shows "convertImage img =
           Inr [(''src'', ''data:image/gif;base64,R0lGODlhAQABAIAAAAAAAP///yH5BAEAAAAALAAAAAABAAEAAAIBRAA7''),
                (''class'', ''remove-me'')]
         \<and> Option.bind (Option.bind (data_url_payload placeholder_src) base64_decode) gif_size
             = Some (1, 1)
         \<and> map_option gif_transparency (Option.bind (data_url_payload placeholder_src) base64_decode)
             = Some True"
proof -
  have "convertImage img =
           Inr [(''src'', ''data:image/gif;base64,R0lGODlhAQABAIAAAAAAAP///yH5BAEAAAAALAAAAAABAAEAAAIBRAA7''),
                (''class'', ''remove-me'')]"
    using assms by (simp add: convertImage_def placeholder_src_def)
  moreover have "Option.bind (Option.bind (data_url_payload placeholder_src) base64_decode) gif_size
             = Some (1, 1)"
    unfolding placeholder_bytes by (simp add: gif_size_def)
  moreover have "map_option gif_transparency (Option.bind (data_url_payload placeholder_src) base64_decode)
             = Some True"
    unfolding placeholder_bytes by (simp add: gif_transparency_def)
  ultimately show ?thesis by simp
qed

theorem image_handler_placeholder_witness:
  "convertImage \<lparr>read_base64 = Inr ''iVBORw0KGgoAAAANSUhEUg==''\<rparr> =
     Inr [(''src'', ''data:image/gif;base64,R0lGODlhAQABAIAAAAAAAP///yH5BAEAAAAALAAAAAABAAEAAAIBRAA7''),
          (''class'', ''remove-me'')]"
  using image_handler_placeholder [of "\<lparr>read_base64 = Inr ''iVBORw0KGgoAAAANSUhEUg==''\<rparr>"
      "''iVBORw0KGgoAAAANSUhEUg==''"]
  by simp
section \<open>Images and the banner\<close>

text \<open>
  C4. Let the converted fragment be the rendering of a well-formed tree of the converter.
  Its image elements are the image nodes of the tree. The two removals turn it into the
  rendering of the tree without its image nodes, so that no image element of the document
  is left and all other content is kept. With the banner in front the fragment has exactly
  one image element and starts with the banner, and the same holds for the result of the
  whole normaliser, footnote step included.
\<close>

theorem images_replaced_by_banner:
  assumes "list_all well_formed nodes"
  shows "image_elements (render_nodes nodes) = sum_list (map image_nodes nodes)
     \<and> removeAllImages (removeSentinelImages (render_nodes nodes))
         = render_nodes (without_images nodes)
     \<and> image_elements (removeAllImages (removeSentinelImages (render_nodes nodes))) = 0
     \<and> image_elements
         (prependBanner (removeAllImages (removeSentinelImages (render_nodes nodes)))) = 1
     \<and> prefix bannerHtml
         (prependBanner (removeAllImages (removeSentinelImages (render_nodes nodes))))
     \<and> image_elements (normalize (render_nodes nodes)) = 1
     \<and> prefix bannerHtml (normalize (render_nodes nodes))"
proof -
  define r where "r = removeAllImages (removeSentinelImages (render_nodes nodes))"
  have r: "r = render_nodes (without_images nodes)"
    unfolding r_def by (rule removals_on_rendering [OF assms])
  note wf = without_images_well_formed [OF assms]
  have none: "image_elements r = 0"
    unfolding r image_elements_rendering [OF wf] by (rule image_nodes_without_images)
  have "tags_flat False (bannerHtml @ r)"
    unfolding banner_flat r by (rule rendering_flat [OF wf])
  from image_elements_fixFootnotes [OF this]
  have "image_elements (fixFootnotes (bannerHtml @ r)) = 1"
    by (simp add: image_elements_banner none)
  with none r show ?thesis
    unfolding normalize_def prependBanner_def r_def [symmetric]
    by (simp add: image_elements_banner fixFootnotes_banner image_elements_rendering [OF assms])
qed

theorem images_replaced_by_banner_witness:
  \<open>render_nodes [Element (js ''h1'') [] [Text (js ''T<1'')],
       Element (js ''p'') []
         [Void (js ''img'') [(js ''src'', js ''a''), (js ''class'', js ''remove-me'')],
          Text (js ''x''),
          Void (js ''img'') [(js ''alt'', js ''b'')]]]
     = js ''<h1>T&lt;1</h1><p><img src="a" class="remove-me" />x<img alt="b" /></p>''
   \<and> image_elements (js ''<h1>T&lt;1</h1><p><img src="a" class="remove-me" />x<img alt="b" /></p>'') = 2
   \<and> removeAllImages (removeSentinelImages
         (js ''<h1>T&lt;1</h1><p><img src="a" class="remove-me" />x<img alt="b" /></p>''))
       = js ''<h1>T&lt;1</h1><p>x</p>''
   \<and> image_elements (normalize
         (js ''<h1>T&lt;1</h1><p><img src="a" class="remove-me" />x<img alt="b" /></p>'')) = 1
   \<and> prefix bannerHtml (normalize
         (js ''<h1>T&lt;1</h1><p><img src="a" class="remove-me" />x<img alt="b" /></p>''))\<close>
proof -
  define nodes where \<open>nodes = [Element (js ''h1'') [] [Text (js ''T<1'')],
       Element (js ''p'') []
         [Void (js ''img'') [(js ''src'', js ''a''), (js ''class'', js ''remove-me'')],
          Text (js ''x''),
          Void (js ''img'') [(js ''alt'', js ''b'')]]]\<close>
  have wf: "list_all well_formed nodes"
    by (simp add: nodes_def valid_name_def name_char_def js_def)
  have rn: \<open>render_nodes nodes
      = js ''<h1>T&lt;1</h1><p><img src="a" class="remove-me" />x<img alt="b" /></p>''\<close>
    by (simp add: nodes_def render_nodes_def generateAttributeString_def escapeHtmlText_def
        escapeHtmlAttribute_def js_def)
  have wi: \<open>render_nodes (without_images nodes) = js ''<h1>T&lt;1</h1><p>x</p>''\<close>
    by (simp add: nodes_def without_images_def render_nodes_def generateAttributeString_def
        escapeHtmlText_def escapeHtmlAttribute_def js_def)
  have n: "sum_list (map image_nodes nodes) = 2"
    by (simp add: nodes_def)
  from images_replaced_by_banner [OF wf] show ?thesis
    unfolding rn wi n nodes_def [symmetric] by simp
qed

section \<open>Footnotes\<close>




section \<open>Idempotence of the steps\<close>

text \<open>
  C8, as amended. The footnote step is idempotent on every fragment. The two image
  removals are idempotent on the fragments in which no \<^verbatim>\<open><\<close> stands inside a tag.
  Prepending the banner is not idempotent on any fragment: a second application adds a
  second banner.
\<close>

theorem idempotent_steps:
  "fixFootnotes (fixFootnotes s) = fixFootnotes s
   \<and> (no_lt_inside_tags s \<longrightarrow>
        removeSentinelImages (removeSentinelImages s) = removeSentinelImages s
        \<and> removeAllImages (removeAllImages s) = removeAllImages s)
   \<and> prependBanner (prependBanner s) \<noteq> prependBanner s"
proof -
  have imgs: "remove_all (img_tag_match Q) (remove_all (img_tag_match Q) s)
      = remove_all (img_tag_match Q) s" if "no_lt_inside_tags s" for Q
  proof -
    from that have "tags_flat False s" by (simp add: no_lt_inside_tags_def)
    from remove_all_flat [OF this, of Q] show ?thesis
      by (simp add: remove_all_none)
  qed
  have "bannerHtml \<noteq> []" by (simp add: bannerHtml_def js_def)
  then have "prependBanner (prependBanner s) \<noteq> prependBanner s"
    by (simp add: prependBanner_def)
  with imgs show ?thesis
    by (simp add: fixFootnotes_idem removeSentinelImages_eq removeAllImages_eq)
qed

theorem idempotent_steps_witness:
  \<open>no_lt_inside_tags (js ''<p>a</p><img class="remove-me" src="x"><img src="y">'')
   \<and> removeSentinelImages (removeSentinelImages (js ''<p>a</p><img class="remove-me" src="x"><img src="y">''))
       = removeSentinelImages (js ''<p>a</p><img class="remove-me" src="x"><img src="y">'')
   \<and> removeAllImages (removeAllImages (js ''<p>a</p><img class="remove-me" src="x"><img src="y">''))
       = removeAllImages (js ''<p>a</p><img class="remove-me" src="x"><img src="y">'')\<close>
proof -
  have flat: \<open>no_lt_inside_tags (js ''<p>a</p><img class="remove-me" src="x"><img src="y">'')\<close>
    by (simp add: no_lt_inside_tags_def js_def)
  from idempotent_steps [of \<open>js ''<p>a</p><img class="remove-me" src="x"><img src="y">''\<close>] flat
  show ?thesis by blast
qed

text \<open>
  C8 as stated fails: the banner step applied twice gives two banners, and on
  \<^verbatim>\<open><i<img>mg>\<close> the second pass of the image removal removes what the first pass
  has put together.
\<close>

theorem banner_prepend_not_idempotent:
  "prependBanner (prependBanner (js ''<p>x</p>'')) = bannerHtml @ bannerHtml @ js ''<p>x</p>''
   \<and> prependBanner (prependBanner (js ''<p>x</p>'')) \<noteq> prependBanner (js ''<p>x</p>'')
   \<and> removeAllImages (js ''<i<img>mg>'') = js ''<img>''
   \<and> removeAllImages (removeAllImages (js ''<i<img>mg>'')) = []
   \<and> removeAllImages (removeAllImages (js ''<i<img>mg>'')) \<noteq> removeAllImages (js ''<i<img>mg>'')"
proof -
  have "bannerHtml \<noteq> []" by (simp add: bannerHtml_def js_def)
  then have b: "prependBanner (prependBanner (js ''<p>x</p>'')) \<noteq> prependBanner (js ''<p>x</p>'')"
    by (simp add: prependBanner_def)
  have r: "removeAllImages (js ''<i<img>mg>'') = js ''<img>''"
    by (simp add: removeAllImages_def imgRegex_def match_at_def js_def not_gt_def)
  have r2: "removeAllImages (js ''<img>'') = []"
    by (simp add: removeAllImages_def imgRegex_def match_at_def js_def not_gt_def)
  from b r r2 show ?thesis by (simp add: prependBanner_def js_def)
qed

section \<open>Injection into the template\<close>

text \<open>
  C2. The Markdown script hands the new article to \<^verbatim>\<open>replace\<close> as the replacement
  text, and \<^verbatim>\<open>replace\<close> expands the dollar patterns in it. For a source whose
  rendering holds \<^verbatim>\<open>$$\<close> (\<^verbatim>\<open>marked\<close> renders \<^verbatim>\<open>Price: $$5\<close> as the paragraph used
  here) the region written is not the rendering: one of the two dollar signs is gone.
\<close>

theorem markdown_dollar_pattern_expanded:
  "written (build_manifesto (\<lambda>md. Inr (js ''<p>Price: $$5</p>\<newline>''))
      \<lparr>sourcePath = ''source.md'', source_file = Some (js ''Price: $$5''),
       index_html = Some (js ''<html><article>old</article></html>''),
       index_writable = True\<rparr>)
     = [js ''<html><article>\<newline><p>Price: $5</p>\<newline>\<newline></article></html>'']
   \<and> js ''<html><article>\<newline><p>Price: $5</p>\<newline>\<newline></article></html>''
     \<noteq> js ''<html>'' @ newArticle (js ''<p>Price: $$5</p>\<newline>'') @ js ''</html>''"
  by (simp add: written_def build_manifesto_def markdown_try_def regex_test_def replace_regex_def
        articleRegex_def newArticle_def js_def match_at_def any_char_def)

text \<open>
  For a rendering without a dollar sign the region is replaced by the rendering between
  the two tags, and the text before and after the region is kept.
\<close>

lemma markdown_region_replaced:
  assumes "template = pre @ js ''<article>'' @ mid @ js ''</article>'' @ post"
    and "indexOf template (js ''<article>'') = Some (length pre)"
    and "indexOf (mid @ js ''</article>'' @ post) (js ''</article>'') = Some (length mid)"
    and "index_html menv = Some template" and "source_file menv = Some markdown"
    and "marked_parse markdown = Inr html"
    and "0x24 \<notin> set html"
  shows "written (build_manifesto marked_parse menv) =
           [pre @ js ''<article>\<newline>'' @ html @ js ''\<newline></article>'' @ post]"
proof -
  note reg = article_region [OF assms(1-3)]
  from assms(7) have "0x24 \<notin> set (newArticle html)"
    by (simp add: newArticle_def js_def)
  then show ?thesis
    unfolding markdown_written [where marked_parse = marked_parse and markdown = markdown,
        OF assms(5,6,4) reg(1)] reg(2)
    by (simp add: getSubstitution_no_dollar newArticle_def)
qed

text \<open>
  C10, as amended. Let the template be \<open>pre\<close>, the first \<^verbatim>\<open><article>\<close>, \<open>mid\<close>, the
  earliest \<^verbatim>\<open></article>\<close> behind it, and \<open>post\<close> (which may hold further regions).
  Both scripts replace this first region only. The Markdown script writes \<open>pre\<close>, the
  expanded new article and \<open>post\<close>. The DOCX script then cuts the first match of the
  citations pattern out of the document. When there is no match it writes \<open>pre\<close>, its
  expanded new article and \<open>post\<close>; when the match lies inside the new article it
  writes \<open>pre\<close>, the new article without the match, and \<open>post\<close>. In both cases
  \<open>pre\<close> and \<open>post\<close> are kept as they are.
\<close>

theorem first_region_only:
  assumes "template = pre @ js ''<article>'' @ mid @ js ''</article>'' @ post"
    and "indexOf template (js ''<article>'') = Some (length pre)"
    and "indexOf (mid @ js ''</article>'' @ post) (js ''</article>'') = Some (length mid)"
    and "index_html menv = Some template" and "source_file menv = Some markdown"
    and "marked_parse markdown = Inr html"
    and "index_html env = Some template" and "source_file env = Some docx"
    and "mammoth docx = Inr (fragment, messages)"
  shows "written (build_manifesto marked_parse menv) =
           [pre @ getSubstitution (js ''<article>'' @ mid @ js ''</article>'') pre post
                    (newArticle html) @ post]
         \<and> (\<not> regex_test citationsRegex
                (pre @ getSubstitution (js ''<article>'' @ mid @ js ''</article>'') pre post
                         (newArticle (normalize fragment)) @ post) \<longrightarrow>
              written (build_manifesto_docx mammoth env) =
                [pre @ getSubstitution (js ''<article>'' @ mid @ js ''</article>'') pre post
                         (newArticle (normalize fragment)) @ post])
         \<and> (\<forall>i n. regex_exec (match_at citationsRegex)
                (pre @ getSubstitution (js ''<article>'' @ mid @ js ''</article>'') pre post
                         (newArticle (normalize fragment)) @ post) = Some (i, n)
              \<and> length pre \<le> i
              \<and> i + n \<le> length pre
                    + length (getSubstitution (js ''<article>'' @ mid @ js ''</article>'') pre post
                         (newArticle (normalize fragment))) \<longrightarrow>
              written (build_manifesto_docx mammoth env) =
                [pre
                 @ (take (i - length pre)
                      (getSubstitution (js ''<article>'' @ mid @ js ''</article>'') pre post
                         (newArticle (normalize fragment)))
                    @ drop (i + n - length pre)
                      (getSubstitution (js ''<article>'' @ mid @ js ''</article>'') pre post
                         (newArticle (normalize fragment))))
                 @ post])"
proof -
  define x where "x = getSubstitution (js ''<article>'' @ mid @ js ''</article>'') pre post
      (newArticle (normalize fragment))"
  note reg = article_region [OF assms(1-3)]
  have md: "written (build_manifesto marked_parse menv) =
           [pre @ getSubstitution (js ''<article>'' @ mid @ js ''</article>'') pre post
                    (newArticle html) @ post]"
    unfolding markdown_written [where marked_parse = marked_parse and markdown = markdown,
        OF assms(5,6,4) reg(1)] reg(2) ..
  have dx: "written (build_manifesto_docx mammoth env)
      = [replace_regex citationsRegex (pre @ x @ post) []]"
    unfolding docx_written [where mammoth = mammoth and docx = docx, OF assms(8,9,7) reg(1)] reg(2)
      x_def ..
  have none: "written (build_manifesto_docx mammoth env) = [pre @ x @ post]"
    if "\<not> regex_test citationsRegex (pre @ x @ post)"
    unfolding dx replace_regex_no_match [OF that] ..
  have inside: "written (build_manifesto_docx mammoth env)
      = [pre @ (take (i - length pre) x @ drop (i + n - length pre) x) @ post]"
    if "regex_exec (match_at citationsRegex) (pre @ x @ post) = Some (i, n)"
      and "length pre \<le> i" and "i + n \<le> length pre + length x" for i n
    unfolding dx replace_regex_cut_inside [OF that] ..
  from md none inside show ?thesis unfolding x_def by blast
qed

theorem first_region_only_witness:
  \<open>written (build_manifesto (\<lambda>md. Inr (js ''<p>new</p>''))
       \<lparr>sourcePath = ''source.md'', source_file = Some (js ''new''),
        index_html = Some (js ''<html><article>old</article><article>keep</article></html>''),
        index_writable = True\<rparr>)
     = [js ''<html><article>\<newline><p>new</p>\<newline></article><article>keep</article></html>'']
   \<and> written (build_manifesto_docx (\<lambda>d::unit. Inr (js ''<p>new</p>'', []))
       \<lparr>sourcePath = ''m.docx'', source_file = Some (),
        index_html = Some (js ''<html><article>old</article><article>keep</article></html>''),
        index_writable = True\<rparr>)
     = [js ''<html><article>\<newline>'' @ bannerHtml
        @ js ''<p>new</p>\<newline></article><article>keep</article></html>'']
   \<and> regex_exec (match_at citationsRegex)
        (js ''<html>''
         @ newArticle (normalize (js ''<p>T</p><ol><li id="footnote-1">x</li></ol>''))
         @ js ''<article>keep</article></html>'') = Some (132, 86)
   \<and> length (newArticle (normalize (js ''<p>T</p><ol><li id="footnote-1">x</li></ol>''))) = 223
   \<and> written (build_manifesto_docx
        (\<lambda>d::unit. Inr (js ''<p>T</p><ol><li id="footnote-1">x</li></ol>'', []))
       \<lparr>sourcePath = ''m.docx'', source_file = Some (),
        index_html = Some (js ''<html><article>old</article><article>keep</article></html>''),
        index_writable = True\<rparr>)
     = [js ''<html><article>\<newline>'' @ bannerHtml
        @ js ''<p>T</p>\<newline></article><article>keep</article></html>'']\<close>
proof -
  define template where
    "template = js ''<html><article>old</article><article>keep</article></html>''"
  define foot where \<open>foot = js ''<p>T</p><ol><li id="footnote-1">x</li></ol>''\<close>
  have t: "template = js ''<html>'' @ js ''<article>'' @ js ''old'' @ js ''</article>''
      @ js ''<article>keep</article></html>''"
    by (simp add: template_def js_def)
  have i1: "indexOf template (js ''<article>'') = Some (length (js ''<html>''))"
    by (simp add: template_def js_def)
  have i2: "indexOf (js ''old'' @ js ''</article>'' @ js ''<article>keep</article></html>'')
      (js ''</article>'') = Some (length (js ''old''))"
    by (simp add: js_def)
  have nd: "0x24 \<notin> set (newArticle (bannerHtml @ js ''<p>new</p>''))"
    "0x24 \<notin> set (newArticle (js ''<p>new</p>''))"
    "0x24 \<notin> set (newArticle (normalize foot))"
    unfolding foot_def normalize_footnoted
    by (simp_all add: newArticle_def bannerHtml_def js_def)
  have nc: "\<not> regex_test citationsRegex
           (js ''<html>'' @ getSubstitution (js ''<article>'' @ js ''old'' @ js ''</article>'')
              (js ''<html>'') (js ''<article>keep</article></html>'')
              (newArticle (normalize (js ''<p>new</p>''))) @ js ''<article>keep</article></html>'')"
    unfolding normalize_plain getSubstitution_no_dollar [OF nd(1)]
    by (simp add: regex_test_def citationsRegex_def match_at_def newArticle_def bannerHtml_def js_def)
  have ex: "regex_exec (match_at citationsRegex)
        (js ''<html>'' @ newArticle (normalize foot) @ js ''<article>keep</article></html>'')
      = Some (132, 86)"
    unfolding foot_def normalize_footnoted
    by (simp add: citationsRegex_def match_at_def newArticle_def bannerHtml_def js_def any_char_def)
  have len: "length (newArticle (normalize foot)) = 223"
    unfolding foot_def normalize_footnoted
    by (simp add: newArticle_def bannerHtml_def js_def)
  have cut: "js ''<html>''
      @ (take (132 - length (js ''<html>'')) (newArticle (normalize foot))
         @ drop (132 + 86 - length (js ''<html>'')) (newArticle (normalize foot)))
      @ js ''<article>keep</article></html>''
      = js ''<html><article>\<newline>'' @ bannerHtml
        @ js ''<p>T</p>\<newline></article><article>keep</article></html>''"
    unfolding foot_def normalize_footnoted
    by (simp add: newArticle_def bannerHtml_def js_def)
  note plain = first_region_only
    [of template "js ''<html>''" "js ''old''" "js ''<article>keep</article></html>''"
        "\<lparr>sourcePath = ''source.md'', source_file = Some (js ''new''),
          index_html = Some template, index_writable = True\<rparr>"
        "js ''new''" "\<lambda>md. Inr (js ''<p>new</p>'')" "js ''<p>new</p>''"
        "\<lparr>sourcePath = ''m.docx'', source_file = Some (), index_html = Some template,
          index_writable = True\<rparr>"
        "()" "\<lambda>d::unit. Inr (js ''<p>new</p>'', [])" "js ''<p>new</p>''" "[]",
      OF t i1 i2]
  note footnoted = first_region_only
    [of template "js ''<html>''" "js ''old''" "js ''<article>keep</article></html>''"
        "\<lparr>sourcePath = ''source.md'', source_file = Some (js ''new''),
          index_html = Some template, index_writable = True\<rparr>"
        "js ''new''" "\<lambda>md. Inr (js ''<p>new</p>'')" "js ''<p>new</p>''"
        "\<lparr>sourcePath = ''m.docx'', source_file = Some (), index_html = Some template,
          index_writable = True\<rparr>"
        "()" "\<lambda>d::unit. Inr (foot, [])" foot "[]",
      OF t i1 i2]
  have a: "written (build_manifesto (\<lambda>md. Inr (js ''<p>new</p>''))
       \<lparr>sourcePath = ''source.md'', source_file = Some (js ''new''),
        index_html = Some template, index_writable = True\<rparr>)
     = [js ''<html><article>\<newline><p>new</p>\<newline></article><article>keep</article></html>'']
   \<and> written (build_manifesto_docx (\<lambda>d::unit. Inr (js ''<p>new</p>'', []))
       \<lparr>sourcePath = ''m.docx'', source_file = Some (),
        index_html = Some template, index_writable = True\<rparr>)
     = [js ''<html><article>\<newline>'' @ bannerHtml
        @ js ''<p>new</p>\<newline></article><article>keep</article></html>'']"
    using plain nc
    unfolding normalize_plain getSubstitution_no_dollar [OF nd(1)]
      getSubstitution_no_dollar [OF nd(2)]
    by (simp add: newArticle_def js_def)
  have "written (build_manifesto_docx (\<lambda>d::unit. Inr (foot, []))
       \<lparr>sourcePath = ''m.docx'', source_file = Some (),
        index_html = Some template, index_writable = True\<rparr>)
     = [js ''<html>''
      @ (take (132 - length (js ''<html>'')) (newArticle (normalize foot))
         @ drop (132 + 86 - length (js ''<html>'')) (newArticle (normalize foot)))
      @ js ''<article>keep</article></html>'']"
    using footnoted ex len
    unfolding getSubstitution_no_dollar [OF nd(3)]
    by (simp add: js_def)
  then have b: "written (build_manifesto_docx (\<lambda>d::unit. Inr (foot, []))
       \<lparr>sourcePath = ''m.docx'', source_file = Some (),
        index_html = Some template, index_writable = True\<rparr>)
     = [js ''<html><article>\<newline>'' @ bannerHtml
        @ js ''<p>T</p>\<newline></article><article>keep</article></html>'']"
    unfolding cut .
  from a b ex len show ?thesis
    unfolding template_def foot_def by simp
qed

text \<open>
  C10 as stated fails for the DOCX script: its last step cuts the first citations block
  out of the whole document, also when the block stands outside the replaced region.
\<close>

theorem docx_cuts_outside_region:
  \<open>written (build_manifesto_docx (\<lambda>d::unit. Inr (js ''<p>new</p>'', []))
       \<lparr>sourcePath = ''m.docx'', source_file = Some (),
        index_html = Some (js ''<article>a</article><article>b</article><div class="citations">x</div>''),
        index_writable = True\<rparr>)
     = [js ''<article>\<newline>'' @ bannerHtml @ js ''<p>new</p>\<newline></article><article>b</article>'']
   \<and> written (build_manifesto_docx (\<lambda>d::unit. Inr (js ''<p>new</p>'', []))
       \<lparr>sourcePath = ''m.docx'', source_file = Some (),
        index_html = Some (js ''<article>a</article><article>b</article><div class="citations">x</div>''),
        index_writable = True\<rparr>)
     \<noteq> [js ''<article>\<newline>'' @ bannerHtml
         @ js ''<p>new</p>\<newline></article><article>b</article><div class="citations">x</div>'']\<close>
proof -
  have t: \<open>regex_test articleRegex
      (js ''<article>a</article><article>b</article><div class="citations">x</div>'')\<close>
    by (simp add: regex_test_def articleRegex_def js_def match_at_def any_char_def)
  have r: \<open>replace_regex citationsRegex
      (replace_regex articleRegex
         (js ''<article>a</article><article>b</article><div class="citations">x</div>'')
         (newArticle (bannerHtml @ js ''<p>new</p>''))) []
      = js ''<article>\<newline>'' @ bannerHtml @ js ''<p>new</p>\<newline></article><article>b</article>''\<close>
    by (simp add: replace_regex_def articleRegex_def citationsRegex_def newArticle_def js_def
        match_at_def any_char_def bannerHtml_def)
  from docx_written
    [of "\<lparr>sourcePath = ''m.docx'', source_file = Some (),
        index_html = Some (js ''<article>a</article><article>b</article><div class=\"citations\">x</div>''),
        index_writable = True\<rparr>" "()" "\<lambda>d::unit. Inr (js ''<p>new</p>'', [])"
        "js ''<p>new</p>''" "[]"
        \<open>js ''<article>a</article><article>b</article><div class="citations">x</div>''\<close>] t
  show ?thesis
    unfolding normalize_plain r by (simp add: js_def)
qed
text \<open>
  C1. The DOCX script cuts the first citations block out of the document after it has
  injected the new article, not before. For a converted fragment that ends in a list of
  footnotes the normaliser builds the references container, and the block that is cut
  out of the written document is this new container: the output has no references.
\<close>

theorem docx_new_references_removed:
  \<open>normalize (js ''<p>T</p><ol><li id="footnote-1">x</li></ol>'')
     = bannerHtml @ js ''<p>T</p><div class="citations">\<newline><h2>References</h2>\<newline><ol><li id="footnote-1">x</li></ol>\<newline></div>''
   \<and> written (build_manifesto_docx
        (\<lambda>d::unit. Inr (js ''<p>T</p><ol><li id="footnote-1">x</li></ol>'', []))
        \<lparr>sourcePath = ''m.docx'', source_file = Some (),
         index_html = Some (js ''<html><article>old</article></html>''),
         index_writable = True\<rparr>)
     = [js ''<html><article>\<newline>'' @ bannerHtml @ js ''<p>T</p>\<newline></article></html>'']\<close>
proof -
  have n: \<open>normalize (js ''<p>T</p><ol><li id="footnote-1">x</li></ol>'')
     = bannerHtml @ js ''<p>T</p><div class="citations">\<newline><h2>References</h2>\<newline><ol><li id="footnote-1">x</li></ol>\<newline></div>''\<close>
    by (simp add: normalize_def fixFootnotes_eq prependBanner_def removeAllImages_def
        removeSentinelImages_def sentinelImgRegex_def imgRegex_def match_at_def js_def
        bannerHtml_def endsWith_def trim_def white_space_def has_footnote_marker_def
        includes_str_def citationsOpen_def citationsClose_def not_gt_def)
  have t: "regex_test articleRegex (js ''<html><article>old</article></html>'')"
    by (simp add: regex_test_def articleRegex_def js_def match_at_def any_char_def)
  have r: \<open>replace_regex citationsRegex
              (replace_regex articleRegex (js ''<html><article>old</article></html>'')
                 (newArticle (bannerHtml @ js ''<p>T</p><div class="citations">\<newline><h2>References</h2>\<newline><ol><li id="footnote-1">x</li></ol>\<newline></div>''))) []
       = js ''<html><article>\<newline>'' @ bannerHtml @ js ''<p>T</p>\<newline></article></html>''\<close>
    by (simp add: replace_regex_def articleRegex_def citationsRegex_def newArticle_def js_def
        match_at_def any_char_def bannerHtml_def)
  have w: \<open>written (build_manifesto_docx
        (\<lambda>d::unit. Inr (js ''<p>T</p><ol><li id="footnote-1">x</li></ol>'', []))
        \<lparr>sourcePath = ''m.docx'', source_file = Some (),
         index_html = Some (js ''<html><article>old</article></html>''),
         index_writable = True\<rparr>)
     = [js ''<html><article>\<newline>'' @ bannerHtml @ js ''<p>T</p>\<newline></article></html>'']\<close>
    using docx_written
      [of "\<lparr>sourcePath = ''m.docx'', source_file = Some (),
            index_html = Some (js ''<html><article>old</article></html>''),
            index_writable = True\<rparr>" "()"
          \<open>\<lambda>d::unit. Inr (js ''<p>T</p><ol><li id="footnote-1">x</li></ol>'', [])\<close>
          \<open>js ''<p>T</p><ol><li id="footnote-1">x</li></ol>''\<close> "[]"
          "js ''<html><article>old</article></html>''"] t
    by (simp add: n r)
  from n w show ?thesis by simp
qed

section \<open>Failures of a run\<close>

text \<open>
  C3. When a run gets as far as the template (the source was read and converted, the
  template was read) and the regular expression for the content region finds no match
  in it, either script logs that the article tag could not be found and exits with
  status 1 at once, without calling \<^verbatim>\<open>writeFileSync\<close>: the template file keeps its
  content.
\<close>

theorem no_article_aborts:
  assumes "index_html env = Some template" and "index_html menv = Some template"
    and "\<not> regex_test articleRegex template"
    and "source_file menv = Some markdown" and "marked_parse markdown = Inr html"
    and "source_file env = Some docx" and "mammoth docx = Inr result"
  shows "exit_code (build_manifesto marked_parse menv) = 1
         \<and> last (trace (build_manifesto marked_parse menv)) = Console_error article_not_found
         \<and> written (build_manifesto marked_parse menv) = []
         \<and> exit_code (build_manifesto_docx mammoth env) = 1
         \<and> last (trace (build_manifesto_docx mammoth env)) = Console_error article_not_found
         \<and> written (build_manifesto_docx mammoth env) = []"
  using assms
  by (simp add: build_manifesto_docx_def build_manifesto_def markdown_try_def docx_then_def
      written_def Let_def)

theorem no_article_aborts_witness:
  "\<not> regex_test articleRegex (js ''<html><body></body></html>'')
   \<and> exit_code (build_manifesto (\<lambda>md. Inr (js ''<p>hi</p>''))
        \<lparr>sourcePath = ''source.md'', source_file = Some (js ''hi''),
         index_html = Some (js ''<html><body></body></html>''), index_writable = True\<rparr>) = 1
   \<and> written (build_manifesto (\<lambda>md. Inr (js ''<p>hi</p>''))
        \<lparr>sourcePath = ''source.md'', source_file = Some (js ''hi''),
         index_html = Some (js ''<html><body></body></html>''), index_writable = True\<rparr>) = []
   \<and> exit_code (build_manifesto_docx (\<lambda>d::unit. Inr (js ''<p>hi</p>'', [''warning'']))
        \<lparr>sourcePath = ''m.docx'', source_file = Some (),
         index_html = Some (js ''<html><body></body></html>''), index_writable = True\<rparr>) = 1
   \<and> written (build_manifesto_docx (\<lambda>d::unit. Inr (js ''<p>hi</p>'', [''warning'']))
        \<lparr>sourcePath = ''m.docx'', source_file = Some (),
         index_html = Some (js ''<html><body></body></html>''), index_writable = True\<rparr>) = []"
proof -
  have none: "\<not> regex_test articleRegex (js ''<html><body></body></html>'')"
    by (simp add: regex_test_def articleRegex_def match_at_def js_def)
  show ?thesis
    using none no_article_aborts
      [of "\<lparr>sourcePath = ''m.docx'', source_file = Some (),
            index_html = Some (js ''<html><body></body></html>''), index_writable = True\<rparr>"
          "js ''<html><body></body></html>''"
          "\<lparr>sourcePath = ''source.md'', source_file = Some (js ''hi''),
            index_html = Some (js ''<html><body></body></html>''), index_writable = True\<rparr>"
          "js ''hi''" "\<lambda>md. Inr (js ''<p>hi</p>'')" "js ''<p>hi</p>''" "()"
          "\<lambda>d::unit. Inr (js ''<p>hi</p>'', [''warning''])" "(js ''<p>hi</p>'', [''warning''])"]
    by simp
qed

text \<open>
  C6. When reading the source, converting it, reading the template or writing the
  template throws, the exception reaches the handler at the top of the script and is
  logged there. The Markdown script then ends with exit code 0; the DOCX script (where
  the source is known to exist at that point) exits with code 1.
\<close>

theorem exceptions_caught:
  assumes "source_file menv = None
           \<or> (\<exists>markdown. source_file menv = Some markdown \<and>
                 ((\<exists>err. marked_parse markdown = Inl err)
                  \<or> (\<exists>html. marked_parse markdown = Inr html \<and>
                        (index_html menv = None
                         \<or> (\<exists>template. index_html menv = Some template
                               \<and> regex_test articleRegex template \<and> \<not> index_writable menv)))))"
    and "\<exists>docx. source_file env = Some docx \<and>
                 ((\<exists>err. mammoth docx = Inl err)
                  \<or> (\<exists>result. mammoth docx = Inr result \<and>
                        (index_html env = None
                         \<or> (\<exists>template. index_html env = Some template
                               \<and> regex_test articleRegex template \<and> \<not> index_writable env))))"
  shows "exit_code (build_manifesto marked_parse menv) = 0
         \<and> (\<exists>err. last (trace (build_manifesto marked_parse menv)) =
                 Console_error_with ''Error processing markdown:'' err)
         \<and> exit_code (build_manifesto_docx mammoth env) = 1
         \<and> (\<exists>err. last (trace (build_manifesto_docx mammoth env)) =
                 Console_error_with ''Error converting DOCX:'' err)"
proof -
  have md: "exit_code (build_manifesto marked_parse menv) = 0
         \<and> (\<exists>err. last (trace (build_manifesto marked_parse menv)) =
                 Console_error_with ''Error processing markdown:'' err)"
    using assms(1)
    by (auto simp add: build_manifesto_def markdown_try_def Let_def)
  have dx: "exit_code (build_manifesto_docx mammoth env) = 1
         \<and> (\<exists>err. last (trace (build_manifesto_docx mammoth env)) =
                 Console_error_with ''Error converting DOCX:'' err)"
    using assms(2)
    by (auto simp add: build_manifesto_docx_def docx_then_def Let_def)
  from md dx show ?thesis by simp
qed

theorem exceptions_caught_witness:
  "regex_test articleRegex (js ''<article>old</article>'')
   \<and> build_manifesto (\<lambda>md. Inr (js ''<p>hi</p>''))
        \<lparr>sourcePath = ''source.md'', source_file = Some (js ''hi''),
         index_html = Some (js ''<article>old</article>''), index_writable = False\<rparr> =
      \<lparr>trace = [Convert_call, Write_index (js ''<article>\<newline><p>hi</p>\<newline></article>''),
                Console_error_with ''Error processing markdown:'' Fs_write_error],
       exit_code = 0\<rparr>
   \<and> exit_code (build_manifesto_docx (\<lambda>d::unit. Inl Converter_error)
        \<lparr>sourcePath = ''m.docx'', source_file = Some (),
         index_html = Some (js ''<article>old</article>''), index_writable = True\<rparr>) = 1"
proof -
  have found: "regex_test articleRegex (js ''<article>old</article>'')"
    by (simp add: regex_test_def articleRegex_def match_at_def js_def any_char_def)
  have run: "build_manifesto (\<lambda>md. Inr (js ''<p>hi</p>''))
        \<lparr>sourcePath = ''source.md'', source_file = Some (js ''hi''),
         index_html = Some (js ''<article>old</article>''), index_writable = False\<rparr> =
      \<lparr>trace = [Convert_call, Write_index (js ''<article>\<newline><p>hi</p>\<newline></article>''),
                Console_error_with ''Error processing markdown:'' Fs_write_error],
       exit_code = 0\<rparr>"
    by (simp add: build_manifesto_def markdown_try_def regex_test_def replace_regex_def
        articleRegex_def newArticle_def js_def match_at_def any_char_def)
  show ?thesis
    using found run exceptions_caught
      [of "\<lparr>sourcePath = ''source.md'', source_file = Some (js ''hi''),
            index_html = Some (js ''<article>old</article>''), index_writable = False\<rparr>"
          "\<lambda>md. Inr (js ''<p>hi</p>'')"
          "\<lparr>sourcePath = ''m.docx'', source_file = Some (),
            index_html = Some (js ''<article>old</article>''), index_writable = True\<rparr>"
          "\<lambda>d::unit. Inl Converter_error"]
    by simp
qed
text \<open>
  C7. When the source document does not exist, the DOCX script finds this out with its
  check before anything else, prints the two lines that tell the user what to do and
  exits with status 1; the converter is not called. The Markdown script fails to read
  the source, logs the error and ends. Neither of them calls \<^verbatim>\<open>writeFileSync\<close>, so
  the template keeps its content.
\<close>

theorem missing_source_aborts:
  assumes "source_file env = None" and "source_file menv = None"
  shows "build_manifesto_docx mammoth env =
           \<lparr>trace = [Console_error (''Error: Source file not found at '' @ sourcePath env),
                     Console_error export_instruction],
            exit_code = 1\<rparr>
         \<and> Convert_call \<notin> set (trace (build_manifesto_docx mammoth env))
         \<and> written (build_manifesto_docx mammoth env) = []
         \<and> build_manifesto marked_parse menv =
           \<lparr>trace = [Console_error_with ''Error processing markdown:'' Fs_read_error],
            exit_code = 0\<rparr>
         \<and> written (build_manifesto marked_parse menv) = []"
  using assms
  by (simp add: build_manifesto_docx_def build_manifesto_def markdown_try_def written_def)

theorem missing_source_aborts_witness:
  "build_manifesto_docx (\<lambda>d::unit. Inr (js ''<p>x</p>'', []))
     \<lparr>sourcePath = ''/site/manifesto/Manifesto of the Anti-AI Movement.docx'',
      source_file = None, index_html = Some (js ''<article>old</article>''),
      index_writable = True\<rparr> =
     \<lparr>trace = [Console_error ''Error: Source file not found at /site/manifesto/Manifesto of the Anti-AI Movement.docx'',
               Console_error export_instruction],
      exit_code = 1\<rparr>
   \<and> written (build_manifesto (\<lambda>md. Inr md)
     \<lparr>sourcePath = ''/site/manifesto/source.md'',
      source_file = None, index_html = Some (js ''<article>old</article>''),
      index_writable = True\<rparr>) = []"
  using missing_source_aborts
    [of "\<lparr>sourcePath = ''/site/manifesto/Manifesto of the Anti-AI Movement.docx'',
      source_file = None, index_html = Some (js ''<article>old</article>''),
      index_writable = True\<rparr>"
     "\<lparr>sourcePath = ''/site/manifesto/source.md'',
      source_file = None, index_html = Some (js ''<article>old</article>''),
      index_writable = True\<rparr>"
     "\<lambda>d::unit. Inr (js ''<p>x</p>'', [])" "\<lambda>md. Inr md"]
  by (simp add: written_def)

end
